theory Spec2Isabelle
  imports Main "HOL-Library.Code_Target_Nat"
begin

section \<open>Raw storage, element lifetime and failures\<close>

text \<open>
  The container of \<^verbatim>\<open>vector.h\<close> owns a region of raw storage obtained from
  \<^verbatim>\<open>operator new\<close> and runs the element type's copy constructor, copy assignment and
  destructor on single slots of it.  The model keeps, for every slot, whether an object is
  alive there (\<open>live\<close>) and the value of that object (\<open>bytes\<close>; \<open>None\<close> for raw storage, and
  for an object that was copied from a place where no object lived).  A destructor call ends
  the lifetime and nothing of the object is left: the slot is raw storage again.

  An operation on a slot that the language forbids (destructing or assigning to a slot without
  a live object, reading one, constructing over a live object, using an address outside an
  allocated region) does not stop the run: it is appended to the log \<open>misuses\<close>.  Where no
  object lives there is nothing to read and nothing to assign to: reading yields no value
  and an assignment stores nothing.
\<close>

datatype 'a slot = Slot (live: bool) (bytes: "'a option")

text \<open>The value of the object that lives in a slot, if one does.\<close>

definition obj :: "'a slot \<Rightarrow> 'a option" where
  "obj s = (if live s then bytes s else None)"

text \<open>
  Sizes, indices and capacities are \<^verbatim>\<open>size_t\<close> in the source and \<open>nat\<close> here.  The
  wrap-around of \<^verbatim>\<open>size_t\<close> (64 bits) is written out where an argument of the caller or
  a doubling enters a product: \<^verbatim>\<open>size * sizeof(T)\<close> and \<^verbatim>\<open>capacity_ * 2\<close>.  The
  increments and index sums of the source stay below the capacity of an existing storage.
\<close>

definition size_max :: nat where
  "size_max = 2 ^ 64 - 1"

definition ptrdiff_max :: nat where
  "ptrdiff_max = 2 ^ 63 - 1"

definition size_t :: "nat \<Rightarrow> nat" where
  "size_t n = n mod 2 ^ 64"

datatype ptr = Ptr (region: "nat option") (offset: nat)

datatype failure =
    AllocationFailure
  | ElementConstructionFailure
  | ElementAssignmentFailure
  | AssertionFailed

datatype misuse =
    DestroyNotLive ptr
  | AssignToNotLive ptr
  | ReadNotLive ptr
  | ConstructOverLive ptr
  | BadAddress ptr
  | BadFree ptr

text \<open>
  The world outside the container object: the heap (region \<open>r\<close> is \<open>heap ! r\<close>, \<open>None\<close> once
  freed), and the two sources of recoverable errors.  Every call of \<^verbatim>\<open>operator new\<close>
  takes the next decision of \<open>alloc_plan\<close>, every copy construction and copy assignment of
  an element the next decision of \<open>elem_plan\<close>; \<open>True\<close> means that the call throws, an
  exhausted plan that it succeeds.  \<open>object_size\<close> is the size in bytes of the element type
  \<^verbatim>\<open>T\<close>, the parameter of the template.
\<close>

record 'a world =
  heap :: "'a slot list option list"
  alloc_plan :: "bool list"
  elem_plan :: "bool list"
  misuses :: "misuse list"
  object_size :: nat

text \<open>\<^verbatim>\<open>sizeof(T)\<close>: at least one byte and, as the size of an object, at most \<^verbatim>\<open>PTRDIFF_MAX\<close>.\<close>

definition sizeof_T :: "'a world \<Rightarrow> nat" where
  "sizeof_T w = max 1 (min (object_size w) ptrdiff_max)"

definition nullptr :: ptr where
  "nullptr = Ptr None 0"

definition ptr_add :: "ptr \<Rightarrow> nat \<Rightarrow> ptr" where
  "ptr_add p i = Ptr (region p) (offset p + i)"

text \<open>
  Pointer difference within one region.  The source takes it only as \<^verbatim>\<open>pos - begin()\<close> and
  \<^verbatim>\<open>last - first\<close>, where the left pointer is not before the right one unless the caller
  breaks the precondition of the call; there the truncating subtraction of \<open>nat\<close> and the
  wrap-around of \<^verbatim>\<open>size_t\<close> differ.
\<close>

definition ptr_diff :: "ptr \<Rightarrow> ptr \<Rightarrow> nat" where
  "ptr_diff p q = offset p - offset q"

definition pop_plan :: "bool list \<Rightarrow> bool \<times> bool list" where
  "pop_plan pl = (case pl of [] \<Rightarrow> (False, []) | b # bs \<Rightarrow> (b, bs))"

definition log_misuse :: "misuse \<Rightarrow> 'a world \<Rightarrow> 'a world" where
  "log_misuse m w = w\<lparr>misuses := misuses w @ [m]\<rparr>"

definition slot_at :: "'a world \<Rightarrow> ptr \<Rightarrow> 'a slot option" where
  "slot_at w p =
     (case region p of
        None \<Rightarrow> None
      | Some r \<Rightarrow>
          if r < length (heap w) then
            (case heap w ! r of
               None \<Rightarrow> None
             | Some ss \<Rightarrow> if offset p < length ss then Some (ss ! offset p) else None)
          else None)"

definition put_slot :: "ptr \<Rightarrow> 'a slot \<Rightarrow> 'a world \<Rightarrow> 'a world" where
  "put_slot p s w =
     (case region p of
        None \<Rightarrow> w
      | Some r \<Rightarrow>
          if r < length (heap w) then
            (case heap w ! r of
               None \<Rightarrow> w
             | Some ss \<Rightarrow> w\<lparr>heap := (heap w)[r := Some (ss[offset p := s])]\<rparr>)
          else w)"

text \<open>
  \<^verbatim>\<open>operator new(count)\<close>: a fresh region of \<open>count\<close> bytes of raw storage, which has room
  for \<open>count div sizeof(T)\<close> objects, or \<^verbatim>\<open>bad_alloc\<close>.  No platform hands out a block of
  more than \<^verbatim>\<open>PTRDIFF_MAX\<close> bytes; such a request always fails.
\<close>

definition operator_new :: "nat \<Rightarrow> 'a world \<Rightarrow> (failure \<times> 'a world) + (ptr \<times> 'a world)" where
  "operator_new count w =
     (case pop_plan (alloc_plan w) of
        (True, pl) \<Rightarrow> Inl (AllocationFailure, w\<lparr>alloc_plan := pl\<rparr>)
      | (False, pl) \<Rightarrow>
          if ptrdiff_max < count then Inl (AllocationFailure, w\<lparr>alloc_plan := pl\<rparr>)
          else
            Inr (Ptr (Some (length (heap w))) 0,
                 w\<lparr>heap := heap w @ [Some (replicate (count div sizeof_T w) (Slot False None))],
                   alloc_plan := pl\<rparr>))"

text \<open>\<^verbatim>\<open>operator delete(p)\<close>: nothing for the null pointer, else the region is given back.\<close>

definition operator_delete :: "ptr \<Rightarrow> 'a world \<Rightarrow> 'a world" where
  "operator_delete p w =
     (case region p of
        None \<Rightarrow> w
      | Some r \<Rightarrow>
          if r < length (heap w) \<and> heap w ! r \<noteq> None \<and> offset p = 0
          then w\<lparr>heap := (heap w)[r := None]\<rparr>
          else log_misuse (BadFree p) w)"

text \<open>Reading the object at \<open>p\<close> as the source of a copy.\<close>

definition read_elem :: "ptr \<Rightarrow> 'a world \<Rightarrow> 'a option \<times> 'a world" where
  "read_elem p w =
     (case slot_at w p of
        None \<Rightarrow> (None, log_misuse (BadAddress p) w)
      | Some s \<Rightarrow> (obj s, if live s then w else log_misuse (ReadNotLive p) w))"

text \<open>\<^verbatim>\<open>new(p) T(x)\<close>: the copy constructor may throw; otherwise an object starts to live at \<open>p\<close>.\<close>

definition construct_at :: "ptr \<Rightarrow> 'a option \<Rightarrow> 'a world \<Rightarrow> (failure \<times> 'a world) + 'a world" where
  "construct_at p x w =
     (case pop_plan (elem_plan w) of
        (True, pl) \<Rightarrow> Inl (ElementConstructionFailure, w\<lparr>elem_plan := pl\<rparr>)
      | (False, pl) \<Rightarrow>
          (let w1 = w\<lparr>elem_plan := pl\<rparr> in
           case slot_at w1 p of
             None \<Rightarrow> Inr (log_misuse (BadAddress p) w1)
           | Some s \<Rightarrow>
               Inr (put_slot p (Slot True x)
                     (if live s then log_misuse (ConstructOverLive p) w1 else w1))))"

text \<open>
  \<^verbatim>\<open>*p = x\<close>: the copy assignment may throw; otherwise the object at \<open>p\<close> takes the value.
\<close>

definition assign_at :: "ptr \<Rightarrow> 'a option \<Rightarrow> 'a world \<Rightarrow> (failure \<times> 'a world) + 'a world" where
  "assign_at p x w =
     (case pop_plan (elem_plan w) of
        (True, pl) \<Rightarrow> Inl (ElementAssignmentFailure, w\<lparr>elem_plan := pl\<rparr>)
      | (False, pl) \<Rightarrow>
          (let w1 = w\<lparr>elem_plan := pl\<rparr> in
           case slot_at w1 p of
             None \<Rightarrow> Inr (log_misuse (BadAddress p) w1)
           | Some s \<Rightarrow>
               Inr (if live s then put_slot p (Slot True x) w1
                    else log_misuse (AssignToNotLive p) w1)))"

text \<open>
  \<^verbatim>\<open>p->~T()\<close>: never throws; the lifetime of the object at \<open>p\<close> ends and its value is gone.
\<close>

definition destroy_at :: "ptr \<Rightarrow> 'a world \<Rightarrow> 'a world" where
  "destroy_at p w =
     (case slot_at w p of
        None \<Rightarrow> log_misuse (BadAddress p) w
      | Some s \<Rightarrow>
          put_slot p (Slot False None)
            (if live s then w else log_misuse (DestroyNotLive p) w))"

text \<open>\<^verbatim>\<open>new(dst) T(*src)\<close> and \<^verbatim>\<open>*dst = *src\<close>.\<close>

definition copy_construct :: "ptr \<Rightarrow> ptr \<Rightarrow> 'a world \<Rightarrow> (failure \<times> 'a world) + 'a world" where
  "copy_construct dst src w = (case read_elem src w of (x, w1) \<Rightarrow> construct_at dst x w1)"

definition copy_assign :: "ptr \<Rightarrow> ptr \<Rightarrow> 'a world \<Rightarrow> (failure \<times> 'a world) + 'a world" where
  "copy_assign dst src w = (case read_elem src w of (x, w1) \<Rightarrow> assign_at dst x w1)"

text \<open>
  \<^verbatim>\<open>T copy = *src\<close>: a local object, outside the heap.  Its constructor may throw; its
  destructor runs when the scope is left and has no effect on the world.
\<close>

definition copy_local :: "ptr \<Rightarrow> 'a world \<Rightarrow> (failure \<times> 'a world) + ('a option \<times> 'a world)" where
  "copy_local src w =
     (case read_elem src w of
        (x, w1) \<Rightarrow>
          (case pop_plan (elem_plan w1) of
             (True, pl) \<Rightarrow> Inl (ElementConstructionFailure, w1\<lparr>elem_plan := pl\<rparr>)
           | (False, pl) \<Rightarrow> Inr (x, w1\<lparr>elem_plan := pl\<rparr>)))"

section \<open>The free functions\<close>

text \<open>\<^verbatim>\<open>destroy_all(ptr, size)\<close>: the loop runs \<open>i\<close> from \<open>0\<close> up to \<open>size\<close>.\<close>

function destroy_loop :: "ptr \<Rightarrow> nat \<Rightarrow> nat \<Rightarrow> 'a world \<Rightarrow> 'a world" where
  "destroy_loop p n i w =
     (if i < n then destroy_loop p n (Suc i) (destroy_at (ptr_add p i) w) else w)"
  by pat_completeness auto
termination
  by (relation "measure (\<lambda>(p, n, i, w). n - i)") auto

definition destroy_all :: "ptr \<Rightarrow> nat \<Rightarrow> 'a world \<Rightarrow> 'a world" where
  "destroy_all p n w = destroy_loop p n 0 w"

text \<open>
  \<^verbatim>\<open>copy_and_construct(dst, src, size)\<close>: the loop of the \<^verbatim>\<open>try\<close> block returns, on a
  throw, the index \<open>i\<close> it had reached; the handler destructs \<open>dst[0..i)\<close> and rethrows.
\<close>

function construct_loop ::
  "ptr \<Rightarrow> ptr \<Rightarrow> nat \<Rightarrow> nat \<Rightarrow> 'a world \<Rightarrow> (failure \<times> nat \<times> 'a world) + 'a world" where
  "construct_loop dst src n i w =
     (if i < n then
        (case copy_construct (ptr_add dst i) (ptr_add src i) w of
           Inl (e, w1) \<Rightarrow> Inl (e, i, w1)
         | Inr w1 \<Rightarrow> construct_loop dst src n (Suc i) w1)
      else Inr w)"
  by pat_completeness auto
termination
  by (relation "measure (\<lambda>(dst, src, n, i, w). n - i)") auto

definition copy_and_construct ::
  "ptr \<Rightarrow> ptr \<Rightarrow> nat \<Rightarrow> 'a world \<Rightarrow> (failure \<times> 'a world) + 'a world" where
  "copy_and_construct dst src n w =
     (case construct_loop dst src n 0 w of
        Inl (e, i, w1) \<Rightarrow> Inl (e, destroy_all dst i w1)
      | Inr w1 \<Rightarrow> Inr w1)"

section \<open>The container\<close>

text \<open>
  The three private members \<^verbatim>\<open>data_\<close>, \<^verbatim>\<open>size_\<close> and \<^verbatim>\<open>capacity_\<close>; a name cannot
  end with an underscore here, hence the suffix.
\<close>

record vec =
  data_m :: ptr
  size_m :: nat
  capacity_m :: nat

definition vector_default :: vec where
  "vector_default = \<lparr>data_m = nullptr, size_m = 0, capacity_m = 0\<rparr>"

definition data_v :: "vec \<Rightarrow> ptr" where
  "data_v v = data_m v"

definition size_v :: "vec \<Rightarrow> nat" where
  "size_v v = size_m v"

definition capacity :: "vec \<Rightarrow> nat" where
  "capacity v = capacity_m v"

definition empty_v :: "vec \<Rightarrow> bool" where
  "empty_v v = (size_m v = 0)"

definition begin_v :: "vec \<Rightarrow> ptr" where
  "begin_v v = data_m v"

definition end_v :: "vec \<Rightarrow> ptr" where
  "end_v v = ptr_add (data_m v) (size_m v)"

text \<open>\<^verbatim>\<open>~vector()\<close>.\<close>

definition vector_dtor :: "vec \<Rightarrow> 'a world \<Rightarrow> 'a world" where
  "vector_dtor v w = operator_delete (data_m v) (destroy_all (data_m v) (size_m v) w)"

text \<open>
  \<^verbatim>\<open>vector(vector const& v)\<close>.  The constructor delegates to \<^verbatim>\<open>vector()\<close>, so when its
  body throws the destructor runs on the still empty object \<open>this\<close>; the local \<^verbatim>\<open>ptr\<close> is
  simply dropped.
\<close>

definition vector_copy :: "vec \<Rightarrow> 'a world \<Rightarrow> (failure \<times> 'a world) + (vec \<times> 'a world)" where
  "vector_copy v w =
     (let this = vector_default in
      if size_v v \<noteq> 0 then
        (case operator_new (size_t (size_v v * sizeof_T w)) w of
           Inl (e, w1) \<Rightarrow> Inl (e, vector_dtor this w1)
         | Inr (p, w1) \<Rightarrow>
             (case copy_and_construct p (data_v v) (size_v v) w1 of
                Inl (e, w2) \<Rightarrow> Inl (e, vector_dtor this w2)
              | Inr w2 \<Rightarrow>
                  Inr (this\<lparr>data_m := p, capacity_m := size_v v, size_m := size_v v\<rparr>, w2)))
      else Inr (this, w))"

text \<open>\<^verbatim>\<open>swap(other)\<close>, on the pair (\<open>this\<close>, \<open>other\<close>).\<close>

definition swap_v :: "vec \<Rightarrow> vec \<Rightarrow> vec \<times> vec" where
  "swap_v this other =
     (this\<lparr>data_m := data_m other, size_m := size_m other, capacity_m := capacity_m other\<rparr>,
      other\<lparr>data_m := data_m this, size_m := size_m this, capacity_m := capacity_m this\<rparr>)"

text \<open>
  \<^verbatim>\<open>operator=(other)\<close>: \<open>other\<close> is only read, by the copy constructor, before \<open>this\<close> is
  written, so passing it by value also covers \<open>other\<close> being \<open>this\<close> itself.  The local
  \<^verbatim>\<open>copy\<close> is destructed on return.
\<close>

definition assign_v :: "vec \<Rightarrow> vec \<Rightarrow> 'a world \<Rightarrow> (failure \<times> vec \<times> 'a world) + (vec \<times> 'a world)" where
  "assign_v other this w =
     (case vector_copy other w of
        Inl (e, w1) \<Rightarrow> Inl (e, this, w1)
      | Inr (copy, w1) \<Rightarrow>
          (case swap_v this copy of (this1, copy1) \<Rightarrow> Inr (this1, vector_dtor copy1 w1)))"

text \<open>\<^verbatim>\<open>operator[]\<close>, \<^verbatim>\<open>front()\<close> and \<^verbatim>\<open>back()\<close> return the address of the element.\<close>

definition at_v :: "nat \<Rightarrow> vec \<Rightarrow> failure + ptr" where
  "at_v i v = (if i < size_m v then Inr (ptr_add (data_m v) i) else Inl AssertionFailed)"

definition front_v :: "vec \<Rightarrow> failure + ptr" where
  "front_v v = (if size_m v > 0 then Inr (ptr_add (data_m v) 0) else Inl AssertionFailed)"

definition back_v :: "vec \<Rightarrow> failure + ptr" where
  "back_v v = (if size_m v > 0 then Inr (ptr_add (data_m v) (size_m v - 1)) else Inl AssertionFailed)"

text \<open>
  \<^verbatim>\<open>copy_to_ptr(capacity, ptr)\<close>.  Both the handler and the normal path exchange \<^verbatim>\<open>ptr\<close>
  and \<^verbatim>\<open>data_\<close>, set the capacity, destruct the elements of the old region and free it;
  the handler then sets the size to zero and rethrows.
\<close>

definition copy_to_ptr ::
  "nat \<Rightarrow> ptr \<Rightarrow> vec \<Rightarrow> 'a world \<Rightarrow> (failure \<times> vec \<times> 'a world) + (vec \<times> 'a world)" where
  "copy_to_ptr cap p v w =
     (case copy_and_construct p (data_m v) (size_m v) w of
        Inl (e, w1) \<Rightarrow>
          (let old = data_m v;
               v1 = v\<lparr>data_m := p\<rparr>;
               v2 = v1\<lparr>capacity_m := cap\<rparr>;
               w2 = destroy_all old (size_m v2) w1;
               w3 = operator_delete old w2;
               v3 = v2\<lparr>size_m := 0\<rparr>
           in Inl (e, v3, w3))
      | Inr w1 \<Rightarrow>
          (let old = data_m v;
               v1 = v\<lparr>data_m := p\<rparr>;
               v2 = v1\<lparr>capacity_m := cap\<rparr>;
               w2 = destroy_all old (size_m v2) w1;
               w3 = operator_delete old w2
           in Inr (v2, w3)))"

text \<open>
  \<^verbatim>\<open>resize(size)\<close> (private): the allocation, of \<^verbatim>\<open>size * sizeof(T)\<close> bytes computed in
  \<^verbatim>\<open>size_t\<close>, is evaluated before the call.  The private \<^verbatim>\<open>reserve_if_needed\<close> is
  called nowhere and is left out.
\<close>

definition resize :: "nat \<Rightarrow> vec \<Rightarrow> 'a world \<Rightarrow> (failure \<times> vec \<times> 'a world) + (vec \<times> 'a world)" where
  "resize n v w =
     (if n = 0 then
        (let w1 = operator_delete (data_m v) w
         in Inr (v\<lparr>data_m := nullptr, capacity_m := 0\<rparr>, w1))
      else
        (case operator_new (size_t (n * sizeof_T w)) w of
           Inl (e, w1) \<Rightarrow> Inl (e, v, w1)
         | Inr (p, w1) \<Rightarrow> copy_to_ptr n p v w1))"

definition reserve :: "nat \<Rightarrow> vec \<Rightarrow> 'a world \<Rightarrow> (failure \<times> vec \<times> 'a world) + (vec \<times> 'a world)" where
  "reserve n v w = (if n > capacity_m v then resize n v w else Inr (v, w))"

definition shrink_to_fit :: "vec \<Rightarrow> 'a world \<Rightarrow> (failure \<times> vec \<times> 'a world) + (vec \<times> 'a world)" where
  "shrink_to_fit v w = (if capacity_m v \<noteq> size_m v then resize (size_m v) v w else Inr (v, w))"

definition clear :: "vec \<Rightarrow> 'a world \<Rightarrow> vec \<times> 'a world" where
  "clear v w = (let w1 = destroy_all (data_m v) (size_m v) w in (v\<lparr>size_m := 0\<rparr>, w1))"

definition pop_back :: "vec \<Rightarrow> 'a world \<Rightarrow> (failure \<times> vec \<times> 'a world) + (vec \<times> 'a world)" where
  "pop_back v w =
     (if size_m v > 0 then
        (case back_v v of
           Inl e \<Rightarrow> Inl (e, v, w)
         | Inr p \<Rightarrow> (let w1 = destroy_at p w in Inr (v\<lparr>size_m := size_m v - 1\<rparr>, w1)))
      else Inl (AssertionFailed, v, w))"

text \<open>
  \<^verbatim>\<open>move_element(from, to)\<close>: the loop runs \<open>i\<close> from \<open>from\<close> down to \<open>to + 1\<close>.  The
  members of the container are not written, so only the world is returned.
\<close>

function shift_loop :: "ptr \<Rightarrow> nat \<Rightarrow> nat \<Rightarrow> 'a world \<Rightarrow> (failure \<times> 'a world) + 'a world" where
  "shift_loop d to_i i w =
     (if i > to_i then
        (case copy_assign (ptr_add d i) (ptr_add d (i - 1)) w of
           Inl (e, w1) \<Rightarrow> Inl (e, w1)
         | Inr w1 \<Rightarrow> shift_loop d to_i (i - 1) w1)
      else Inr w)"
  by pat_completeness auto
termination
  by (relation "measure (\<lambda>(d, to_i, i, w). i)") auto

definition move_element ::
  "nat \<Rightarrow> nat \<Rightarrow> vec \<Rightarrow> 'a world \<Rightarrow> (failure \<times> 'a world) + 'a world" where
  "move_element from_i to_i v w =
     (if \<not> from_i \<ge> to_i then Inl (AssertionFailed, w)
      else if from_i \<noteq> to_i then
        (case copy_local (ptr_add (data_m v) from_i) w of
           Inl (e, w1) \<Rightarrow> Inl (e, w1)
         | Inr (copy, w1) \<Rightarrow>
             (case shift_loop (data_m v) to_i from_i w1 of
                Inl (e, w2) \<Rightarrow> Inl (e, w2)
              | Inr w2 \<Rightarrow> assign_at (ptr_add (data_m v) to_i) copy w2))
      else Inr w)"

text \<open>
  \<^verbatim>\<open>resize_and_insert(size, i, e)\<close>.  The new element is constructed in the new region
  outside any \<^verbatim>\<open>try\<close>; the handler around \<^verbatim>\<open>copy_to_ptr\<close> destructs it and rethrows.
\<close>

definition resize_and_insert ::
  "nat \<Rightarrow> nat \<Rightarrow> 'a \<Rightarrow> vec \<Rightarrow> 'a world \<Rightarrow> (failure \<times> vec \<times> 'a world) + (vec \<times> 'a world)" where
  "resize_and_insert n i e v w =
     (case operator_new (size_t (n * sizeof_T w)) w of
        Inl (ex, w1) \<Rightarrow> Inl (ex, v, w1)
      | Inr (p, w1) \<Rightarrow>
          (case construct_at (ptr_add p (size_m v)) (Some e) w1 of
             Inl (ex, w2) \<Rightarrow> Inl (ex, v, w2)
           | Inr w2 \<Rightarrow>
               (let placed_element = ptr_add p (size_m v) in
                case copy_to_ptr n p v w2 of
                  Inl (ex, v3, w3) \<Rightarrow> Inl (ex, v3, destroy_at placed_element w3)
                | Inr (v3, w3) \<Rightarrow>
                    (let v4 = v3\<lparr>size_m := size_m v3 + 1\<rparr> in
                     case move_element (size_m v4 - 1) i v4 w3 of
                       Inl (ex, w4) \<Rightarrow> Inl (ex, v4, w4)
                     | Inr w4 \<Rightarrow> Inr (v4, w4)))))"

text \<open>\<^verbatim>\<open>insert(pos, e)\<close>; both overloads are the same function of the position.\<close>

definition insert_v ::
  "ptr \<Rightarrow> 'a \<Rightarrow> vec \<Rightarrow> 'a world \<Rightarrow> (failure \<times> vec \<times> 'a world) + (ptr \<times> vec \<times> 'a world)" where
  "insert_v pos e v w =
     (let pos_i = ptr_diff pos (begin_v v) in
      case
        (if size_m v = capacity_m v then
           resize_and_insert (max 1 (size_t (capacity_m v * 2))) pos_i e v w
         else
           (case construct_at (ptr_add (data_m v) (size_m v)) (Some e) w of
              Inl (ex, w1) \<Rightarrow> Inl (ex, v, w1)
            | Inr w1 \<Rightarrow>
                (let v1 = v\<lparr>size_m := size_m v + 1\<rparr> in
                 case move_element (size_m v1 - 1) pos_i v1 w1 of
                   Inl (ex, w2) \<Rightarrow> Inl (ex, v1, w2)
                 | Inr w2 \<Rightarrow> Inr (v1, w2))))
      of
        Inl x \<Rightarrow> Inl x
      | Inr (v', w') \<Rightarrow> Inr (ptr_add (begin_v v') pos_i, v', w'))"

text \<open>\<^verbatim>\<open>push_back(e)\<close> calls \<^verbatim>\<open>insert(end(), e)\<close> and drops the iterator.\<close>

definition push_back :: "'a \<Rightarrow> vec \<Rightarrow> 'a world \<Rightarrow> (failure \<times> vec \<times> 'a world) + (vec \<times> 'a world)" where
  "push_back e v w =
     (case insert_v (end_v v) e v w of
        Inl x \<Rightarrow> Inl x
      | Inr (it, v', w') \<Rightarrow> Inr (v', w'))"

text \<open>
  \<^verbatim>\<open>erase(first, last)\<close>: the loop runs \<open>i\<close> from \<open>first_after_i\<close> up to \<^verbatim>\<open>size_\<close>, assigns
  \<^verbatim>\<open>data_[i]\<close> to \<^verbatim>\<open>data_[first_i + i - first_after_i]\<close> and then destructs \<^verbatim>\<open>data_[i]\<close>.
  The size is written after the loop only.
\<close>

function erase_loop ::
  "ptr \<Rightarrow> nat \<Rightarrow> nat \<Rightarrow> nat \<Rightarrow> nat \<Rightarrow> 'a world \<Rightarrow> (failure \<times> 'a world) + 'a world" where
  "erase_loop d first_i first_after_i n i w =
     (if i < n then
        (case copy_assign (ptr_add d (first_i + i - first_after_i)) (ptr_add d i) w of
           Inl (e, w1) \<Rightarrow> Inl (e, w1)
         | Inr w1 \<Rightarrow>
             erase_loop d first_i first_after_i n (Suc i) (destroy_at (ptr_add d i) w1))
      else Inr w)"
  by pat_completeness auto
termination
  by (relation "measure (\<lambda>(d, first_i, first_after_i, n, i, w). n - i)") auto

definition erase ::
  "ptr \<Rightarrow> ptr \<Rightarrow> vec \<Rightarrow> 'a world \<Rightarrow> (failure \<times> vec \<times> 'a world) + (ptr \<times> vec \<times> 'a world)" where
  "erase first_it last_it v w =
     (let first_after_i = ptr_diff last_it (begin_v v);
          first_i = ptr_diff first_it (begin_v v)
      in case erase_loop (data_m v) first_i first_after_i (size_m v) first_after_i w of
           Inl (e, w1) \<Rightarrow> Inl (e, v, w1)
         | Inr w1 \<Rightarrow>
             (let v1 = v\<lparr>size_m := size_m v - ptr_diff last_it first_it\<rparr>
              in Inr (ptr_add (data_m v1) first_i, v1, w1)))"

text \<open>\<^verbatim>\<open>erase(pos)\<close>.\<close>

definition erase_pos ::
  "ptr \<Rightarrow> vec \<Rightarrow> 'a world \<Rightarrow> (failure \<times> vec \<times> 'a world) + (ptr \<times> vec \<times> 'a world)" where
  "erase_pos pos v w = erase pos (ptr_add pos 1) v w"

section \<open>What a caller observes\<close>

text \<open>
  The value of the object at an address, \<open>None\<close> where no object lives, and the elements a
  caller reads through \<^verbatim>\<open>v[0]\<close>, ..., \<^verbatim>\<open>v[size() - 1]\<close>.
\<close>

definition stored :: "'a world \<Rightarrow> ptr \<Rightarrow> 'a option" where
  "stored w p = (case slot_at w p of None \<Rightarrow> None | Some s \<Rightarrow> obj s)"

definition elems :: "vec \<Rightarrow> 'a world \<Rightarrow> 'a option list" where
  "elems v w = map (\<lambda>i. stored w (ptr_add (data_m v) i)) [0..<size_m v]"

text \<open>The slots of the region a pointer points into (\<open>[]\<close> for no region).\<close>

definition slots_of :: "'a world \<Rightarrow> ptr \<Rightarrow> 'a slot list" where
  "slots_of w p =
     (case region p of
        None \<Rightarrow> []
      | Some r \<Rightarrow>
          if r < length (heap w) then (case heap w ! r of None \<Rightarrow> [] | Some ss \<Rightarrow> ss) else [])"

definition allocated :: "'a world \<Rightarrow> ptr \<Rightarrow> bool" where
  "allocated w p =
     (case region p of
        None \<Rightarrow> False
      | Some r \<Rightarrow> r < length (heap w) \<and> heap w ! r \<noteq> None)"

text \<open>
  The part of the invariant of section 3 of the specification that the elements need:
  \<open>length \<le> capacity\<close>, no allocation exactly when the capacity is zero, the storage is a
  block of \<open>capacity\<close> slots that \<^verbatim>\<open>operator new\<close> can have returned, and each of the first
  \<open>length\<close> slots holds a live object with a value.
\<close>

definition well_formed :: "vec \<Rightarrow> 'a world \<Rightarrow> bool" where
  "well_formed v w =
     (size_m v \<le> capacity_m v \<and>
      offset (data_m v) = 0 \<and>
      (capacity_m v = 0 \<longleftrightarrow> region (data_m v) = None) \<and>
      (capacity_m v \<noteq> 0 \<longrightarrow> allocated w (data_m v)) \<and>
      length (slots_of w (data_m v)) = capacity_m v \<and>
      capacity_m v * sizeof_T w \<le> ptrdiff_max \<and>
      list_all (\<lambda>s. live s \<and> bytes s \<noteq> None) (take (size_m v) (slots_of w (data_m v))))"

text \<open>The whole invariant: moreover no object lives in the slots from \<open>length\<close> on.\<close>

definition invariant :: "vec \<Rightarrow> 'a world \<Rightarrow> bool" where
  "invariant v w =
     (well_formed v w \<and>
      list_all (\<lambda>s. \<not> live s) (drop (size_m v) (slots_of w (data_m v))))"

text \<open>A world with an empty heap in which nothing fails, for elements of four bytes.\<close>

definition world0 :: "'a world" where
  "world0 = \<lparr>heap = [], alloc_plan = [], elem_plan = [], misuses = [], object_size = 4\<rparr>"

section \<open>Auxiliary notions\<close>

text \<open>Region \<open>r\<close> of the heap is allocated and holds the slots \<open>ss\<close>.\<close>

definition reg :: "'a world \<Rightarrow> nat \<Rightarrow> 'a slot list \<Rightarrow> bool" where
  "reg w r ss \<longleftrightarrow> r < length (heap w) \<and> heap w ! r = Some ss"

text \<open>The list \<open>[f 0, ..., f (n - 1)]\<close>.\<close>

definition tab :: "nat \<Rightarrow> (nat \<Rightarrow> 'b) \<Rightarrow> 'b list" where
  "tab n f = map f [0..<n]"

text \<open>A caller that makes one \<^verbatim>\<open>push_back\<close> call for each value of a list, in order.\<close>

fun push_all ::
  "'a list \<Rightarrow> vec \<Rightarrow> 'a world \<Rightarrow> (failure \<times> vec \<times> 'a world) + (vec \<times> 'a world)" where
  "push_all [] v w = Inr (v, w)"
| "push_all (x # xs) v w =
     (case push_back x v w of
        Inl f \<Rightarrow> Inl f
      | Inr (v', w') \<Rightarrow> push_all xs v' w')"

text \<open>
  A world with the given heap in which nothing fails and nothing has gone wrong, for
  elements of four bytes.
\<close>

definition world_of :: "'a slot list option list \<Rightarrow> 'a world" where
  "world_of h = \<lparr>heap = h, alloc_plan = [], elem_plan = [], misuses = [], object_size = 4\<rparr>"

text \<open>
  A concrete container for the examples: the elements \<open>1, 2, 3\<close> in a storage of four slots.
\<close>

definition ex_w :: "nat world" where
  "ex_w = world_of [Some [Slot True (Some 1), Slot True (Some 2), Slot True (Some 3),
                          Slot False None]]"

definition ex_v :: vec where
  "ex_v = \<lparr>data_m = Ptr (Some 0) 0, size_m = 3, capacity_m = 4\<rparr>"

section \<open>Single slots\<close>


lemma ptr_add_Ptr [simp]: "ptr_add (Ptr r k) i = Ptr r (k + i)"
  by (simp add: ptr_add_def)

lemma log_misuse_simps [simp]:
  "heap (log_misuse m w) = heap w"
  "alloc_plan (log_misuse m w) = alloc_plan w"
  "elem_plan (log_misuse m w) = elem_plan w"
  "misuses (log_misuse m w) = misuses w @ [m]"
  "object_size (log_misuse m w) = object_size w"
  by (simp_all add: log_misuse_def)

lemma reg_log_misuse [simp]: "reg (log_misuse m w) r ss = reg w r ss"
  by (simp add: reg_def)

lemma reg_elem_plan_update [simp]: "reg (w\<lparr>elem_plan := pl\<rparr>) r ss = reg w r ss"
  by (simp add: reg_def)

lemma reg_alloc_plan_update [simp]: "reg (w\<lparr>alloc_plan := pl\<rparr>) r ss = reg w r ss"
  by (simp add: reg_def)

lemma reg_fun: "reg w r ss \<Longrightarrow> reg w r ss' \<Longrightarrow> ss' = ss"
  by (simp add: reg_def)

lemma reg_length: "reg w r ss \<Longrightarrow> r < length (heap w)"
  by (simp add: reg_def)

lemma heap_update_same: "reg w r ss \<Longrightarrow> (heap w)[r := Some ss] = heap w"
  by (metis list_update_id reg_def)

lemma slot_at_reg:
  "reg w r ss \<Longrightarrow> slot_at w (Ptr (Some r) k) = (if k < length ss then Some (ss ! k) else None)"
  by (simp add: slot_at_def reg_def)

lemma put_slot_other_fields [simp]:
  "alloc_plan (put_slot p s w) = alloc_plan w"
  "elem_plan (put_slot p s w) = elem_plan w"
  "misuses (put_slot p s w) = misuses w"
  "object_size (put_slot p s w) = object_size w"
  by (simp_all add: put_slot_def split: option.splits)

lemma heap_put_slot:
  "reg w r ss \<Longrightarrow> heap (put_slot (Ptr (Some r) k) s w) = (heap w)[r := Some (ss[k := s])]"
  by (simp add: put_slot_def reg_def)

lemma reg_heap_update:
  "heap w' = (heap w)[r := Some ss'] \<Longrightarrow> r < length (heap w) \<Longrightarrow> reg w' r ss'"
  by (simp add: reg_def)

lemma reg_heap_update_other:
  "heap w' = (heap w)[r := x] \<Longrightarrow> r' \<noteq> r \<Longrightarrow> reg w' r' ss = reg w r' ss"
  by (simp add: reg_def)

text \<open>destroy_at\<close>

lemma destroy_at_plans [simp]:
  "alloc_plan (destroy_at p w) = alloc_plan w"
  "elem_plan (destroy_at p w) = elem_plan w"
  "object_size (destroy_at p w) = object_size w"
  by (simp_all add: destroy_at_def split: option.splits)

lemma heap_destroy_at:
  "reg w r ss \<Longrightarrow> k < length ss \<Longrightarrow>
   heap (destroy_at (Ptr (Some r) k) w) = (heap w)[r := Some (ss[k := Slot False None])]"
  by (simp add: destroy_at_def slot_at_reg heap_put_slot)

text \<open>read_elem\<close>

lemma read_elem_reg:
  "reg w r ss \<Longrightarrow> k < length ss \<Longrightarrow>
   read_elem (Ptr (Some r) k) w =
     (obj (ss ! k), if live (ss ! k) then w else log_misuse (ReadNotLive (Ptr (Some r) k)) w)"
  by (simp add: read_elem_def slot_at_reg)

lemma read_elem_fields [simp]:
  "heap (snd (read_elem p w)) = heap w"
  "alloc_plan (snd (read_elem p w)) = alloc_plan w"
  "elem_plan (snd (read_elem p w)) = elem_plan w"
  "object_size (snd (read_elem p w)) = object_size w"
  by (simp_all add: read_elem_def split: option.splits)

text \<open>construct_at / assign_at\<close>

lemma construct_at_Inr:
  assumes "construct_at (Ptr (Some r) k) x w = Inr w'" and "reg w r ss" and "k < length ss"
  shows "heap w' = (heap w)[r := Some (ss[k := Slot True x])]"
    and "alloc_plan w' = alloc_plan w"
    and "\<not> live (ss ! k) \<Longrightarrow> misuses w' = misuses w"
  using assms
  by (auto simp: construct_at_def slot_at_reg heap_put_slot Let_def split: prod.splits bool.splits if_splits)

lemma construct_at_Inl:
  assumes "construct_at p x w = Inl (e, w')"
  shows "e = ElementConstructionFailure" and "heap w' = heap w" and "alloc_plan w' = alloc_plan w"
    and "misuses w' = misuses w"
  using assms
  by (auto simp: construct_at_def Let_def split: prod.splits bool.splits option.splits)

lemma assign_at_Inr:
  assumes "assign_at (Ptr (Some r) k) x w = Inr w'" and "reg w r ss" and "k < length ss"
  shows "heap w' = (heap w)[r := Some (ss[k := (if live (ss ! k) then Slot True x else ss ! k)])]"
    and "alloc_plan w' = alloc_plan w"
    and "live (ss ! k) \<Longrightarrow> misuses w' = misuses w"
  using assms
  by (auto simp: assign_at_def slot_at_reg heap_put_slot heap_update_same Let_def
           split: prod.splits bool.splits if_splits)

lemma assign_at_Inl:
  assumes "assign_at p x w = Inl (e, w')"
  shows "e = ElementAssignmentFailure" and "heap w' = heap w" and "alloc_plan w' = alloc_plan w"
    and "misuses w' = misuses w"
  using assms
  by (auto simp: assign_at_def Let_def split: prod.splits bool.splits option.splits)

lemma copy_construct_Inr:
  assumes "copy_construct (Ptr (Some rd) kd) (Ptr (Some rs) ks) w = Inr w'"
    and "reg w rd ds" and "kd < length ds" and "reg w rs ss" and "ks < length ss"
  shows "heap w' = (heap w)[rd := Some (ds[kd := Slot True (obj (ss ! ks))])]"
    and "alloc_plan w' = alloc_plan w"
    and "live (ss ! ks) \<Longrightarrow> \<not> live (ds ! kd) \<Longrightarrow> misuses w' = misuses w"
proof -
  let ?w1 = "snd (read_elem (Ptr (Some rs) ks) w)"
  have c: "construct_at (Ptr (Some rd) kd) (obj (ss ! ks)) ?w1 = Inr w'"
    using assms by (simp add: copy_construct_def read_elem_reg split: prod.splits)
  have r1: "reg ?w1 rd ds" using assms(2,4,5) by (simp add: read_elem_reg)
  show "heap w' = (heap w)[rd := Some (ds[kd := Slot True (obj (ss ! ks))])]"
    using construct_at_Inr(1)[OF c r1 assms(3)] by simp
  show "alloc_plan w' = alloc_plan w"
    using construct_at_Inr(2)[OF c r1 assms(3)] by simp
  show "misuses w' = misuses w" if "live (ss ! ks)" "\<not> live (ds ! kd)"
    using construct_at_Inr(3)[OF c r1 assms(3)] that assms(4,5) by (simp add: read_elem_reg)
qed

lemma copy_construct_Inl:
  assumes "copy_construct (Ptr (Some rd) kd) (Ptr (Some rs) ks) w = Inl (e, w')"
    and "reg w rs ss" and "ks < length ss"
  shows "e = ElementConstructionFailure" and "heap w' = heap w" and "alloc_plan w' = alloc_plan w"
    and "live (ss ! ks) \<Longrightarrow> misuses w' = misuses w"
proof -
  let ?w1 = "snd (read_elem (Ptr (Some rs) ks) w)"
  have c: "construct_at (Ptr (Some rd) kd) (obj (ss ! ks)) ?w1 = Inl (e, w')"
    using assms by (simp add: copy_construct_def read_elem_reg split: prod.splits)
  show "e = ElementConstructionFailure" using construct_at_Inl(1)[OF c] .
  show "heap w' = heap w" using construct_at_Inl(2)[OF c] by simp
  show "alloc_plan w' = alloc_plan w" using construct_at_Inl(3)[OF c] by simp
  show "misuses w' = misuses w" if "live (ss ! ks)"
    using construct_at_Inl(4)[OF c] that assms(2,3) by (simp add: read_elem_reg)
qed

lemma copy_assign_Inr:
  assumes "copy_assign (Ptr (Some r) kd) (Ptr (Some r) ks) w = Inr w'"
    and "reg w r ss" and "kd < length ss" and "ks < length ss"
  shows "heap w' = (heap w)[r := Some (ss[kd := (if live (ss ! kd) then Slot True (obj (ss ! ks))
                                                 else ss ! kd)])]"
    and "alloc_plan w' = alloc_plan w"
    and "live (ss ! ks) \<Longrightarrow> live (ss ! kd) \<Longrightarrow> misuses w' = misuses w"
proof -
  let ?w1 = "snd (read_elem (Ptr (Some r) ks) w)"
  have c: "assign_at (Ptr (Some r) kd) (obj (ss ! ks)) ?w1 = Inr w'"
    using assms by (simp add: copy_assign_def read_elem_reg split: prod.splits)
  have r1: "reg ?w1 r ss" using assms(2,4) by (simp add: read_elem_reg)
  show "heap w' = (heap w)[r := Some (ss[kd := (if live (ss ! kd) then Slot True (obj (ss ! ks))
                                                 else ss ! kd)])]"
    using assign_at_Inr(1)[OF c r1 assms(3)] by simp
  show "alloc_plan w' = alloc_plan w"
    using assign_at_Inr(2)[OF c r1 assms(3)] by simp
  show "misuses w' = misuses w" if "live (ss ! ks)" "live (ss ! kd)"
    using assign_at_Inr(3)[OF c r1 assms(3)] that assms(2,4) by (simp add: read_elem_reg)
qed


declare destroy_loop.simps [simp del]
declare construct_loop.simps [simp del]
declare shift_loop.simps [simp del]
declare erase_loop.simps [simp del]


lemma length_tab [simp]: "length (tab n f) = n"
  by (simp add: tab_def)

lemma nth_tab [simp]: "j < n \<Longrightarrow> tab n f ! j = f j"
  by (simp add: tab_def)

lemma tab_cong: "(\<And>j. j < n \<Longrightarrow> f j = g j) \<Longrightarrow> tab n f = tab n g"
  by (simp add: tab_def)

lemma tab_nth: "tab (length ss) (\<lambda>j. ss ! j) = ss"
  by (simp add: tab_def map_nth)

lemma destroy_loop_heap:
  "reg w r ss \<Longrightarrow> n \<le> length ss \<Longrightarrow>
   heap (destroy_loop (Ptr (Some r) 0) n i w) =
     (heap w)[r := Some (tab (length ss)
        (\<lambda>j. if i \<le> j \<and> j < n then Slot False None else ss ! j))]"
proof (induction "Ptr (Some r) 0" n i w arbitrary: ss rule: destroy_loop.induct)
  case (1 n i w)
  show ?case
  proof (cases "i < n")
    case False
    then have "tab (length ss) (\<lambda>j. if i \<le> j \<and> j < n then Slot False None else ss ! j)
                 = tab (length ss) (\<lambda>j. ss ! j)"
      by (intro tab_cong) auto
    with False 1(2) show ?thesis
      by (simp add: destroy_loop.simps[of _ n i] heap_update_same tab_nth)
  next
    case True
    let ?ss1 = "ss[i := Slot False None]"
    let ?w1 = "destroy_at (Ptr (Some r) i) w"
    have h1: "heap ?w1 = (heap w)[r := Some ?ss1]"
      using heap_destroy_at[OF 1(2)] True 1(3) by simp
    have r1: "reg ?w1 r ?ss1"
      using reg_heap_update[OF h1 reg_length[OF 1(2)]] .
    have ih: "heap (destroy_loop (Ptr (Some r) 0) n (Suc i) ?w1) =
        (heap ?w1)[r := Some (tab (length ss)
           (\<lambda>j. if Suc i \<le> j \<and> j < n then Slot False None else ?ss1 ! j))]"
      using 1(1)[OF True, of ?ss1] r1 True 1(3) by simp
    have eq: "tab (length ss)
                (\<lambda>j. if Suc i \<le> j \<and> j < n then Slot False None else ?ss1 ! j) =
              tab (length ss)
                (\<lambda>j. if i \<le> j \<and> j < n then Slot False None else ss ! j)"
      using True 1(3) by (intro tab_cong) (auto simp: nth_list_update)
    show ?thesis
      using True ih h1 eq by (simp add: destroy_loop.simps[of _ n i])
  qed
qed


lemma construct_loop_Inr:
  "construct_loop (Ptr (Some rd) 0) (Ptr (Some rs) 0) n i w = Inr w' \<Longrightarrow>
   reg w rd ds \<Longrightarrow> reg w rs ss \<Longrightarrow> rd \<noteq> rs \<Longrightarrow> n \<le> length ds \<Longrightarrow> n \<le> length ss \<Longrightarrow>
   heap w' = (heap w)[rd := Some (tab (length ds)
        (\<lambda>j. if i \<le> j \<and> j < n then Slot True (obj (ss ! j)) else ds ! j))]"
proof (induction "Ptr (Some rd) 0" "Ptr (Some rs) 0" n i w arbitrary: ds
       rule: construct_loop.induct)
  case (1 n i w)
  show ?case
  proof (cases "i < n")
    case False
    then have "tab (length ds) (\<lambda>j. if i \<le> j \<and> j < n then Slot True (obj (ss ! j)) else ds ! j)
                 = tab (length ds) (\<lambda>j. ds ! j)"
      by (intro tab_cong) auto
    moreover have "w' = w"
      using False 1(2) by (simp add: construct_loop.simps[of _ _ n i])
    ultimately show ?thesis
      using 1(3) by (simp add: heap_update_same tab_nth)
  next
    case True
    obtain w1 where c: "copy_construct (Ptr (Some rd) i) (Ptr (Some rs) i) w = Inr w1"
      and l: "construct_loop (Ptr (Some rd) 0) (Ptr (Some rs) 0) n (Suc i) w1 = Inr w'"
      using True 1(2)
      by (auto simp: construct_loop.simps[of _ _ n i] split: sum.splits)
    let ?ds1 = "ds[i := Slot True (obj (ss ! i))]"
    have h1: "heap w1 = (heap w)[rd := Some ?ds1]"
      using copy_construct_Inr(1)[OF c 1(3) _ 1(4)] True 1(6,7) by simp
    have r1: "reg w1 rd ?ds1"
      using reg_heap_update[OF h1 reg_length[OF 1(3)]] .
    have r2: "reg w1 rs ss"
      using reg_heap_update_other[OF h1, of rs ss] 1(4,5) by simp
    have ih: "heap w' = (heap w1)[rd := Some (tab (length ds)
           (\<lambda>j. if Suc i \<le> j \<and> j < n then Slot True (obj (ss ! j)) else ?ds1 ! j))]"
      using 1(1)[of w1 ?ds1] True c l r1 r2 1(5,6,7) by simp
    have eq: "tab (length ds)
                (\<lambda>j. if Suc i \<le> j \<and> j < n then Slot True (obj (ss ! j)) else ?ds1 ! j) =
              tab (length ds)
                (\<lambda>j. if i \<le> j \<and> j < n then Slot True (obj (ss ! j)) else ds ! j)"
      using True 1(6) by (intro tab_cong) (auto simp: nth_list_update)
    show ?thesis
      using ih h1 eq by simp
  qed
qed

lemma construct_loop_Inl:
  "construct_loop (Ptr (Some rd) 0) (Ptr (Some rs) 0) n i w = Inl (e, k, w') \<Longrightarrow>
   reg w rd ds \<Longrightarrow> reg w rs ss \<Longrightarrow> rd \<noteq> rs \<Longrightarrow> n \<le> length ds \<Longrightarrow> n \<le> length ss \<Longrightarrow>
   i \<le> k \<and> k < n \<and> e = ElementConstructionFailure \<and>
   heap w' = (heap w)[rd := Some (tab (length ds)
        (\<lambda>j. if i \<le> j \<and> j < k then Slot True (obj (ss ! j)) else ds ! j))]"
proof (induction "Ptr (Some rd) 0" "Ptr (Some rs) 0" n i w arbitrary: ds
       rule: construct_loop.induct)
  case (1 n i w)
  have True: "i < n"
    using 1(2) by (auto simp: construct_loop.simps[of _ _ n i] split: if_splits)
  show ?case
  proof (cases "copy_construct (Ptr (Some rd) i) (Ptr (Some rs) i) w")
    case (Inl x)
    then have x: "x = (e, w')" and k: "k = i"
      using True 1(2) by (auto simp: construct_loop.simps[of _ _ n i] split: prod.splits)
    have c: "copy_construct (Ptr (Some rd) i) (Ptr (Some rs) i) w = Inl (e, w')"
      using Inl x by simp
    have e: "e = ElementConstructionFailure" and h: "heap w' = heap w"
      using copy_construct_Inl(1,2)[OF c 1(4)] True 1(7) by simp_all
    have "tab (length ds) (\<lambda>j. if i \<le> j \<and> j < k then Slot True (obj (ss ! j)) else ds ! j)
                 = tab (length ds) (\<lambda>j. ds ! j)"
      using k by (intro tab_cong) auto
    then show ?thesis
      using e h k True 1(3) by (simp add: heap_update_same tab_nth)
  next
    case (Inr w1)
    then have l: "construct_loop (Ptr (Some rd) 0) (Ptr (Some rs) 0) n (Suc i) w1 = Inl (e, k, w')"
      using True 1(2) by (auto simp: construct_loop.simps[of _ _ n i])
    let ?ds1 = "ds[i := Slot True (obj (ss ! i))]"
    have h1: "heap w1 = (heap w)[rd := Some ?ds1]"
      using copy_construct_Inr(1)[OF Inr 1(3) _ 1(4)] True 1(6,7) by simp
    have r1: "reg w1 rd ?ds1"
      using reg_heap_update[OF h1 reg_length[OF 1(3)]] .
    have r2: "reg w1 rs ss"
      using reg_heap_update_other[OF h1, of rs ss] 1(4,5) by simp
    have ih: "Suc i \<le> k \<and> k < n \<and> e = ElementConstructionFailure \<and>
        heap w' = (heap w1)[rd := Some (tab (length ds)
           (\<lambda>j. if Suc i \<le> j \<and> j < k then Slot True (obj (ss ! j)) else ?ds1 ! j))]"
      using 1(1)[of w1 ?ds1] True Inr l r1 r2 1(5,6,7) by simp
    have eq: "tab (length ds)
                (\<lambda>j. if Suc i \<le> j \<and> j < k then Slot True (obj (ss ! j)) else ?ds1 ! j) =
              tab (length ds)
                (\<lambda>j. if i \<le> j \<and> j < k then Slot True (obj (ss ! j)) else ds ! j)"
      using True ih 1(6) by (intro tab_cong) (auto simp: nth_list_update)
    show ?thesis
      using ih h1 eq by simp
  qed
qed

lemma shift_loop_Inr:
  "shift_loop (Ptr (Some r) 0) t i w = Inr w' \<Longrightarrow> reg w r ss \<Longrightarrow> i < length ss \<Longrightarrow>
   heap w' = (heap w)[r := Some (tab (length ss)
        (\<lambda>j. if t < j \<and> j \<le> i \<and> live (ss ! j) then Slot True (obj (ss ! (j - 1))) else ss ! j))]"
proof (induction "Ptr (Some r) 0" t i w arbitrary: ss rule: shift_loop.induct)
  case (1 t i w)
  show ?case
  proof (cases "t < i")
    case False
    then have "tab (length ss)
        (\<lambda>j. if t < j \<and> j \<le> i \<and> live (ss ! j) then Slot True (obj (ss ! (j - 1))) else ss ! j)
                 = tab (length ss) (\<lambda>j. ss ! j)"
      by (intro tab_cong) auto
    moreover have "w' = w"
      using False 1(2) by (simp add: shift_loop.simps[of _ t i])
    ultimately show ?thesis
      using 1(3) by (simp add: heap_update_same tab_nth)
  next
    case True
    obtain w1 where c: "copy_assign (Ptr (Some r) i) (Ptr (Some r) (i - 1)) w = Inr w1"
      and l: "shift_loop (Ptr (Some r) 0) t (i - 1) w1 = Inr w'"
      using True 1(2)
      by (auto simp: shift_loop.simps[of _ t i] split: sum.splits)
    let ?ss1 = "ss[i := (if live (ss ! i) then Slot True (obj (ss ! (i - 1))) else ss ! i)]"
    have h1: "heap w1 = (heap w)[r := Some ?ss1]"
      using copy_assign_Inr(1)[OF c 1(3)] 1(4) by simp
    have r1: "reg w1 r ?ss1"
      using reg_heap_update[OF h1 reg_length[OF 1(3)]] .
    have ih: "heap w' = (heap w1)[r := Some (tab (length ss)
           (\<lambda>j. if t < j \<and> j \<le> i - 1 \<and> live (?ss1 ! j) then Slot True (obj (?ss1 ! (j - 1)))
                 else ?ss1 ! j))]"
      using 1(1)[of w1 ?ss1] c l r1 1(4) True by simp
    have eq: "tab (length ss)
           (\<lambda>j. if t < j \<and> j \<le> i - 1 \<and> live (?ss1 ! j) then Slot True (obj (?ss1 ! (j - 1)))
                 else ?ss1 ! j) =
              tab (length ss)
           (\<lambda>j. if t < j \<and> j \<le> i \<and> live (ss ! j) then Slot True (obj (ss ! (j - 1))) else ss ! j)"
      using True 1(4) by (intro tab_cong) (auto simp: nth_list_update)
    show ?thesis
      using ih h1 eq by simp
  qed
qed


text \<open>
  The loop of \<open>erase\<close>, started at \<open>i\<close>: every slot from \<open>i\<close> up to \<open>n\<close> ends destructed; a
  slot below \<open>i\<close> that is the target of an assignment takes the value of its source if an
  object lives in it.
\<close>

lemma erase_loop_Inr:
  "erase_loop (Ptr (Some r) 0) a b n i w = Inr w' \<Longrightarrow> reg w r ss \<Longrightarrow> n \<le> length ss \<Longrightarrow>
   a \<le> b \<Longrightarrow> b \<le> i \<Longrightarrow>
   heap w' = (heap w)[r := Some (tab (length ss)
        (\<lambda>j. if i \<le> j \<and> j < n then Slot False None
              else if a + i - b \<le> j \<and> j < a + n - b \<and> live (ss ! j)
                   then Slot True (obj (ss ! (j + (b - a))))
                   else ss ! j))]"
proof (induction "Ptr (Some r) 0" a b n i w arbitrary: ss rule: erase_loop.induct)
  case (1 a b n i w)
  show ?case
  proof (cases "i < n")
    case False
    then have "tab (length ss)
        (\<lambda>j. if i \<le> j \<and> j < n then Slot False None
              else if a + i - b \<le> j \<and> j < a + n - b \<and> live (ss ! j)
                   then Slot True (obj (ss ! (j + (b - a))))
                   else ss ! j)
                 = tab (length ss) (\<lambda>j. ss ! j)"
      using 1(5,6) by (intro tab_cong) auto
    moreover have "w' = w"
      using False 1(2) by (simp add: erase_loop.simps[of _ a b n i])
    ultimately show ?thesis
      using 1(3) by (simp add: heap_update_same tab_nth)
  next
    case True
    define t where "t = a + i - b"
    obtain w1 where c: "copy_assign (Ptr (Some r) t) (Ptr (Some r) i) w = Inr w1"
      and l: "erase_loop (Ptr (Some r) 0) a b n (Suc i) (destroy_at (Ptr (Some r) i) w1) = Inr w'"
      using True 1(2)
      by (auto simp: t_def erase_loop.simps[of _ a b n i] split: sum.splits)
    have ti: "t \<le> i" "t < length ss" "i < length ss" using True 1(4,5,6) by (auto simp: t_def)
    define ss1 where "ss1 = ss[t := (if live (ss ! t) then Slot True (obj (ss ! i)) else ss ! t)]"
    define ss2 where "ss2 = ss1[i := Slot False None]"
    let ?w2 = "destroy_at (Ptr (Some r) i) w1"
    have len: "length ss1 = length ss" "length ss2 = length ss" by (simp_all add: ss1_def ss2_def)
    have h1: "heap w1 = (heap w)[r := Some ss1]"
      using copy_assign_Inr(1)[OF c 1(3)] ti by (simp add: ss1_def)
    have r1: "reg w1 r ss1"
      using reg_heap_update[OF h1 reg_length[OF 1(3)]] .
    have h2: "heap ?w2 = (heap w)[r := Some ss2]"
      using heap_destroy_at[OF r1, of i] ti h1 len by (simp add: ss2_def)
    have r2: "reg ?w2 r ss2"
      using reg_heap_update[OF h2 reg_length[OF 1(3)]] .
    have ih: "heap w' = (heap ?w2)[r := Some (tab (length ss2)
        (\<lambda>j. if Suc i \<le> j \<and> j < n then Slot False None
              else if a + Suc i - b \<le> j \<and> j < a + n - b \<and> live (ss2 ! j)
                   then Slot True (obj (ss2 ! (j + (b - a))))
                   else ss2 ! j))]"
      using 1(1)[of w1 ss2] c l r2 1(4,5,6) True len by (simp add: t_def)
    have eq: "tab (length ss2)
        (\<lambda>j. if Suc i \<le> j \<and> j < n then Slot False None
              else if a + Suc i - b \<le> j \<and> j < a + n - b \<and> live (ss2 ! j)
                   then Slot True (obj (ss2 ! (j + (b - a))))
                   else ss2 ! j) =
              tab (length ss)
        (\<lambda>j. if i \<le> j \<and> j < n then Slot False None
              else if a + i - b \<le> j \<and> j < a + n - b \<and> live (ss ! j)
                   then Slot True (obj (ss ! (j + (b - a))))
                   else ss ! j)"
      unfolding len
    proof (intro tab_cong)
      fix j assume j: "j < length ss"
      have s2: "ss2 ! j = (if j = i then Slot False None
                           else if j = t \<and> live (ss ! t) then Slot True (obj (ss ! i))
                           else ss ! j)"
        using j ti by (auto simp: ss2_def ss1_def nth_list_update)
      show "(if Suc i \<le> j \<and> j < n then Slot False None
              else if a + Suc i - b \<le> j \<and> j < a + n - b \<and> live (ss2 ! j)
                   then Slot True (obj (ss2 ! (j + (b - a))))
                   else ss2 ! j) =
            (if i \<le> j \<and> j < n then Slot False None
              else if a + i - b \<le> j \<and> j < a + n - b \<and> live (ss ! j)
                   then Slot True (obj (ss ! (j + (b - a))))
                   else ss ! j)"
      proof (cases "i \<le> j")
        case ij: True
        show ?thesis
        proof (cases "j < n")
          case True
          with ij s2 show ?thesis by auto
        next
          case False
          then have "\<not> j < a + n - b" using 1(5) by auto
          moreover have "j \<noteq> i" "j \<noteq> t" using False \<open>i < n\<close> ti by auto
          ultimately show ?thesis using ij False s2 by simp
        qed
      next
        case ji: False
        then have jn: "j \<noteq> i" "j < i" by auto
        show ?thesis
        proof (cases "j = t")
          case True
          have src: "j + (b - a) = i" using True 1(5,6) by (simp add: t_def)
          have r: "a + i - b \<le> j" "j < a + n - b" "\<not> a + Suc i - b \<le> j"
            using True \<open>i < n\<close> 1(5,6) by (auto simp: t_def)
          show ?thesis using ji jn s2 True r src by auto
        next
          case False
          have s2j: "ss2 ! j = ss ! j" using s2 jn False by simp
          have cond: "(a + Suc i - b \<le> j) = (a + i - b \<le> j)"
            using False 1(5,6) by (auto simp: t_def)
          show ?thesis
          proof (cases "a + i - b \<le> j \<and> j < a + n - b")
            case True
            then have k: "t < j" "j + (b - a) < n" "i < j + (b - a)"
              using False 1(5,6) by (auto simp: t_def)
            then have "j + (b - a) \<noteq> i" "j + (b - a) \<noteq> t" using ti by auto
            moreover have "j + (b - a) < length ss" using k 1(4) by simp
            ultimately have "ss2 ! (j + (b - a)) = ss ! (j + (b - a))"
              using ti by (simp add: ss2_def ss1_def nth_list_update)
            with s2j cond ji show ?thesis by simp
          next
            case False
            with s2j cond ji show ?thesis by auto
          qed
        qed
      qed
    qed
    show ?thesis
      using ih h2 eq by simp
  qed
qed


section \<open>The size of an element is never written\<close>

lemma construct_at_size:
  "construct_at p x w = Inr w' \<Longrightarrow> object_size w' = object_size w"
  "construct_at p x w = Inl (e, w') \<Longrightarrow> object_size w' = object_size w"
  by (auto simp: construct_at_def Let_def split: prod.splits bool.splits option.splits if_splits)

lemma assign_at_size:
  "assign_at p x w = Inr w' \<Longrightarrow> object_size w' = object_size w"
  "assign_at p x w = Inl (e, w') \<Longrightarrow> object_size w' = object_size w"
  by (auto simp: assign_at_def Let_def split: prod.splits bool.splits option.splits if_splits)

lemma copy_construct_size:
  "copy_construct dst src w = Inr w' \<Longrightarrow> object_size w' = object_size w"
  "copy_construct dst src w = Inl (e, w') \<Longrightarrow> object_size w' = object_size w"
  using construct_at_size[of dst "fst (read_elem src w)" "snd (read_elem src w)"]
  by (auto simp: copy_construct_def split: prod.splits)

lemma copy_assign_size:
  "copy_assign dst src w = Inr w' \<Longrightarrow> object_size w' = object_size w"
  "copy_assign dst src w = Inl (e, w') \<Longrightarrow> object_size w' = object_size w"
  using assign_at_size[of dst "fst (read_elem src w)" "snd (read_elem src w)"]
  by (auto simp: copy_assign_def split: prod.splits)

lemma copy_local_size:
  "copy_local src w = Inr (x, w') \<Longrightarrow> object_size w' = object_size w"
  "copy_local src w = Inl (e, w') \<Longrightarrow> object_size w' = object_size w"
proof -
  obtain x0 w1 where r: "read_elem src w = (x0, w1)" by (cases "read_elem src w")
  have s: "object_size w1 = object_size w" using read_elem_fields(4)[of src w] r by simp
  show "copy_local src w = Inr (x, w') \<Longrightarrow> object_size w' = object_size w"
    using s by (auto simp: copy_local_def r split: prod.splits bool.splits)
  show "copy_local src w = Inl (e, w') \<Longrightarrow> object_size w' = object_size w"
    using s by (auto simp: copy_local_def r split: prod.splits bool.splits)
qed

lemma destroy_loop_size [simp]: "object_size (destroy_loop p n i w) = object_size w"
proof (induction p n i w rule: destroy_loop.induct)
  case (1 p n i w)
  then show ?case by (cases "i < n") (simp_all add: destroy_loop.simps[of p n i])
qed

lemma destroy_all_size [simp]: "object_size (destroy_all p n w) = object_size w"
  by (simp add: destroy_all_def)

lemma construct_loop_size_Inr:
  "construct_loop dst src n i w = Inr w' \<Longrightarrow> object_size w' = object_size w"
proof (induction dst src n i w rule: construct_loop.induct)
  case (1 dst src n i w)
  show ?case
  proof (cases "i < n")
    case False
    with 1(2) show ?thesis by (simp add: construct_loop.simps[of dst src n i])
  next
    case True
    obtain w1 where c: "copy_construct (ptr_add dst i) (ptr_add src i) w = Inr w1"
      and l: "construct_loop dst src n (Suc i) w1 = Inr w'"
      using True 1(2) by (auto simp: construct_loop.simps[of dst src n i] split: sum.splits)
    from 1(1)[OF True c l] copy_construct_size(1)[OF c] show ?thesis by simp
  qed
qed

lemma construct_loop_size_Inl:
  "construct_loop dst src n i w = Inl (e, k, w') \<Longrightarrow> object_size w' = object_size w"
proof (induction dst src n i w rule: construct_loop.induct)
  case (1 dst src n i w)
  have True: "i < n"
    using 1(2) by (auto simp: construct_loop.simps[of dst src n i] split: if_splits)
  show ?case
  proof (cases "copy_construct (ptr_add dst i) (ptr_add src i) w")
    case (Inl x)
    then have c: "copy_construct (ptr_add dst i) (ptr_add src i) w = Inl (e, w')"
      using True 1(2) by (auto simp: construct_loop.simps[of dst src n i] split: prod.splits)
    from copy_construct_size(2)[OF c] show ?thesis .
  next
    case (Inr w1)
    then have l: "construct_loop dst src n (Suc i) w1 = Inl (e, k, w')"
      using True 1(2) by (auto simp: construct_loop.simps[of dst src n i])
    from 1(1)[OF True Inr l] copy_construct_size(1)[OF Inr] show ?thesis by simp
  qed
qed

lemma copy_and_construct_size:
  "copy_and_construct dst src n w = Inr w' \<Longrightarrow> object_size w' = object_size w"
  "copy_and_construct dst src n w = Inl (e, w') \<Longrightarrow> object_size w' = object_size w"
  using construct_loop_size_Inr[of dst src n 0 w] construct_loop_size_Inl[of dst src n 0 w]
  by (auto simp: copy_and_construct_def split: sum.splits prod.splits)

lemma shift_loop_size:
  "shift_loop d t i w = Inr w' \<Longrightarrow> object_size w' = object_size w"
proof (induction d t i w rule: shift_loop.induct)
  case (1 d t i w)
  show ?case
  proof (cases "t < i")
    case False
    with 1(2) show ?thesis by (simp add: shift_loop.simps[of d t i])
  next
    case True
    obtain w1 where c: "copy_assign (ptr_add d i) (ptr_add d (i - 1)) w = Inr w1"
      and l: "shift_loop d t (i - 1) w1 = Inr w'"
      using True 1(2) by (auto simp: shift_loop.simps[of d t i] split: sum.splits)
    from 1(1)[OF True c l] copy_assign_size(1)[OF c] show ?thesis by simp
  qed
qed

lemma erase_loop_size:
  "erase_loop d a b n i w = Inr w' \<Longrightarrow> object_size w' = object_size w"
proof (induction d a b n i w rule: erase_loop.induct)
  case (1 d a b n i w)
  show ?case
  proof (cases "i < n")
    case False
    with 1(2) show ?thesis by (simp add: erase_loop.simps[of d a b n i])
  next
    case True
    obtain w1 where c: "copy_assign (ptr_add d (a + i - b)) (ptr_add d i) w = Inr w1"
      and l: "erase_loop d a b n (Suc i) (destroy_at (ptr_add d i) w1) = Inr w'"
      using True 1(2) by (auto simp: erase_loop.simps[of d a b n i] split: sum.splits)
    from 1(1)[OF True c l] copy_assign_size(1)[OF c] show ?thesis by simp
  qed
qed

lemma operator_delete_size [simp]: "object_size (operator_delete p w) = object_size w"
  by (simp add: operator_delete_def split: option.splits)

lemma sizeof_T_cong: "object_size w' = object_size w \<Longrightarrow> sizeof_T w' = sizeof_T w"
  by (simp add: sizeof_T_def)

lemma sizeof_T_bounds: "0 < sizeof_T w" "sizeof_T w \<le> ptrdiff_max"
  by (simp_all add: sizeof_T_def ptrdiff_max_def)

section \<open>The invariant and the allocation primitives\<close>

lemma destroy_loop_zero [simp]: "destroy_loop p 0 i w = w"
  by (simp add: destroy_loop.simps[of p 0 i])

lemma construct_loop_zero [simp]: "construct_loop dst src 0 i w = Inr w"
  by (simp add: construct_loop.simps[of dst src 0 i])

lemma ptr_eq: "region p = r \<Longrightarrow> offset p = k \<Longrightarrow> p = Ptr r k"
  by (cases p) simp

lemma list_all_take_nth: "n \<le> length xs \<Longrightarrow> list_all P (take n xs) = (\<forall>j<n. P (xs ! j))"
  by (simp add: list_all_length)

lemma list_all_drop_nth: "list_all P (drop n xs) = (\<forall>j. n \<le> j \<longrightarrow> j < length xs \<longrightarrow> P (xs ! j))"
proof
  assume L: "list_all P (drop n xs)"
  show "\<forall>j. n \<le> j \<longrightarrow> j < length xs \<longrightarrow> P (xs ! j)"
  proof (intro allI impI)
    fix j assume j: "n \<le> j" "j < length xs"
    then have "j - n < length xs - n" by arith
    with L have "P (drop n xs ! (j - n))" by (simp add: list_all_length)
    then show "P (xs ! j)" using j by simp
  qed
next
  assume R: "\<forall>j. n \<le> j \<longrightarrow> j < length xs \<longrightarrow> P (xs ! j)"
  show "list_all P (drop n xs)"
    unfolding list_all_length
  proof (intro allI impI)
    fix k assume "k < length (drop n xs)"
    then have "n + k < length xs" by simp
    with R have "P (xs ! (n + k))" by simp
    then show "P (drop n xs ! k)" using \<open>n + k < length xs\<close> by simp
  qed
qed

lemma slots_of_reg: "reg w r ss \<Longrightarrow> slots_of w (Ptr (Some r) k) = ss"
  by (simp add: slots_of_def reg_def)

lemma wf_null:
  "well_formed v w \<Longrightarrow> region (data_m v) = None \<Longrightarrow>
   data_m v = Ptr None 0 \<and> size_m v = 0 \<and> capacity_m v = 0"
  by (auto simp: well_formed_def intro: ptr_eq)

lemma wf_bound: "well_formed v w \<Longrightarrow> capacity_m v * sizeof_T w \<le> ptrdiff_max"
  by (simp add: well_formed_def)

lemma wf_reg:
  assumes "well_formed v w" and "region (data_m v) = Some r"
  shows "\<exists>ss. data_m v = Ptr (Some r) 0 \<and> reg w r ss \<and> length ss = capacity_m v \<and>
          size_m v \<le> length ss \<and> 0 < capacity_m v \<and>
          (\<forall>j<size_m v. live (ss ! j) \<and> bytes (ss ! j) \<noteq> None)"
proof -
  have d: "data_m v = Ptr (Some r) 0"
    using assms by (auto simp: well_formed_def intro: ptr_eq)
  have c: "0 < capacity_m v" using assms by (auto simp: well_formed_def)
  then have "allocated w (data_m v)" using assms by (simp add: well_formed_def)
  then obtain ss where r: "reg w r ss"
    using d by (auto simp: allocated_def reg_def)
  then have s: "slots_of w (data_m v) = ss" using d by (simp add: slots_of_reg)
  have l: "length ss = capacity_m v" "size_m v \<le> length ss"
    using assms(1) s by (simp_all add: well_formed_def)
  have "list_all (\<lambda>s. live s \<and> bytes s \<noteq> None) (take (size_m v) ss)"
    using assms(1) s by (simp add: well_formed_def)
  then show ?thesis
    using d r l c by (intro exI[of _ ss]) (simp add: list_all_take_nth)
qed

lemma wfI_reg:
  assumes "data_m v = Ptr (Some r) 0" and "reg w r ss" and "length ss = capacity_m v"
    and "0 < capacity_m v" and "size_m v \<le> capacity_m v"
    and "capacity_m v * sizeof_T w \<le> ptrdiff_max"
    and "\<And>j. j < size_m v \<Longrightarrow> live (ss ! j) \<and> bytes (ss ! j) \<noteq> None"
  shows "well_formed v w"
proof -
  have s: "slots_of w (data_m v) = ss" using assms(1,2) by (simp add: slots_of_reg)
  have a: "allocated w (data_m v)" using assms(1,2) by (simp add: allocated_def reg_def)
  show ?thesis
    unfolding well_formed_def s
    using assms a by (simp add: list_all_take_nth)
qed

lemma invariant_wf: "invariant v w \<Longrightarrow> well_formed v w"
  by (simp add: invariant_def)

lemma invariant_null:
  "invariant v w \<Longrightarrow> region (data_m v) = None \<Longrightarrow>
   data_m v = Ptr None 0 \<and> size_m v = 0 \<and> capacity_m v = 0"
  using wf_null[OF invariant_wf] .

lemma invariant_reg:
  assumes "invariant v w" and "region (data_m v) = Some r"
  shows "\<exists>ss. data_m v = Ptr (Some r) 0 \<and> reg w r ss \<and> length ss = capacity_m v \<and>
          size_m v \<le> length ss \<and> 0 < capacity_m v \<and>
          (\<forall>j<size_m v. live (ss ! j) \<and> bytes (ss ! j) \<noteq> None) \<and>
          (\<forall>j. size_m v \<le> j \<longrightarrow> j < length ss \<longrightarrow> \<not> live (ss ! j))"
proof -
  from wf_reg[OF invariant_wf[OF assms(1)] assms(2)] obtain ss where
    f: "data_m v = Ptr (Some r) 0" "reg w r ss" "length ss = capacity_m v"
       "size_m v \<le> length ss" "0 < capacity_m v"
       "\<forall>j<size_m v. live (ss ! j) \<and> bytes (ss ! j) \<noteq> None"
    by blast
  have s: "slots_of w (data_m v) = ss" using f(1,2) by (simp add: slots_of_reg)
  have "list_all (\<lambda>s. \<not> live s) (drop (size_m v) ss)"
    using assms(1) s by (simp add: invariant_def)
  then have "\<forall>j. size_m v \<le> j \<longrightarrow> j < length ss \<longrightarrow> \<not> live (ss ! j)"
    by (simp add: list_all_drop_nth)
  with f show ?thesis by (intro exI[of _ ss]) simp
qed

lemma invariantI_reg:
  assumes "data_m v = Ptr (Some r) 0" and "reg w r ss" and "length ss = capacity_m v"
    and "0 < capacity_m v" and "size_m v \<le> capacity_m v"
    and "capacity_m v * sizeof_T w \<le> ptrdiff_max"
    and "\<And>j. j < size_m v \<Longrightarrow> live (ss ! j) \<and> bytes (ss ! j) \<noteq> None"
    and "\<And>j. size_m v \<le> j \<Longrightarrow> j < length ss \<Longrightarrow> \<not> live (ss ! j)"
  shows "invariant v w"
proof -
  have s: "slots_of w (data_m v) = ss" using assms(1,2) by (simp add: slots_of_reg)
  have wf: "well_formed v w"
    using assms(1-7) by (intro wfI_reg[of v r w ss]) simp_all
  show ?thesis
    unfolding invariant_def s
    using wf assms(8) by (simp add: list_all_drop_nth)
qed

lemma invariantI_wf:
  assumes "well_formed v w" and "data_m v = Ptr (Some r) 0" and "reg w r ss"
    and "\<And>j. size_m v \<le> j \<Longrightarrow> j < length ss \<Longrightarrow> \<not> live (ss ! j)"
  shows "invariant v w"
proof -
  have s: "slots_of w (data_m v) = ss" using assms(2,3) by (simp add: slots_of_reg)
  show ?thesis
    unfolding invariant_def s using assms(1,4) by (simp add: list_all_drop_nth)
qed

lemma elems_reg:
  "data_m v = Ptr (Some r) 0 \<Longrightarrow> reg w r ss \<Longrightarrow> size_m v \<le> length ss \<Longrightarrow>
   elems v w = tab (size_m v) (\<lambda>j. obj (ss ! j))"
  by (simp add: elems_def tab_def stored_def slot_at_reg)

lemma elems_empty: "size_m v = 0 \<Longrightarrow> elems v w = []"
  by (simp add: elems_def)

lemma stored_reg: "reg w r ss \<Longrightarrow> k < length ss \<Longrightarrow> stored w (Ptr (Some r) k) = obj (ss ! k)"
  by (simp add: stored_def slot_at_reg)

lemma obj_live: "live s \<Longrightarrow> obj s = bytes s"
  by (simp add: obj_def)

lemma obj_Slot [simp]: "obj (Slot True x) = x" "obj (Slot False x) = None"
  by (simp_all add: obj_def)

text \<open>
  \<^verbatim>\<open>operator new(n * sizeof(T))\<close>, when the product does not wrap around: a region of \<open>n\<close>
  slots, of at most \<^verbatim>\<open>PTRDIFF_MAX\<close> bytes.
\<close>

lemma size_t_id: "n \<le> size_max \<Longrightarrow> size_t n = n"
  by (simp add: size_t_def size_max_def)

lemma operator_new_Inr:
  assumes "operator_new (size_t (n * sizeof_T w)) w = Inr (p, w')"
    and "n * sizeof_T w \<le> size_max"
  shows "p = Ptr (Some (length (heap w))) 0"
    and "heap w' = heap w @ [Some (replicate n (Slot False None))]"
    and "n * sizeof_T w \<le> ptrdiff_max"
    and "object_size w' = object_size w"
  using assms sizeof_T_bounds(1)[of w]
  by (auto simp: operator_new_def size_t_id split: prod.splits bool.splits if_splits)

lemma operator_new_reg:
  assumes "operator_new (size_t (n * sizeof_T w)) w = Inr (p, w')"
    and "n * sizeof_T w \<le> size_max"
  shows "reg w' (length (heap w)) (replicate n (Slot False None))"
    and "reg w r ss \<Longrightarrow> reg w' r ss"
  using operator_new_Inr(2)[OF assms] by (auto simp: reg_def nth_append)

lemma operator_new_Inl:
  assumes "operator_new c w = Inl (e, w')"
  shows "e = AllocationFailure" and "heap w' = heap w" and "object_size w' = object_size w"
  using assms by (auto simp: operator_new_def split: prod.splits bool.splits if_splits)

lemma ptrdiff_size_max: "2 * ptrdiff_max \<le> size_max"
  by (simp add: ptrdiff_max_def size_max_def)

lemma heap_operator_delete:
  "reg w r ss \<Longrightarrow> heap (operator_delete (Ptr (Some r) 0) w) = (heap w)[r := None]"
  by (simp add: operator_delete_def reg_def)

lemma operator_delete_null [simp]: "operator_delete (Ptr None k) w = w"
  by (simp add: operator_delete_def)

lemma destroy_all_heap:
  "reg w r ss \<Longrightarrow> n \<le> length ss \<Longrightarrow>
   heap (destroy_all (Ptr (Some r) 0) n w) =
     (heap w)[r := Some (tab (length ss) (\<lambda>j. if j < n then Slot False None else ss ! j))]"
  using destroy_loop_heap[of w r ss n 0] by (simp add: destroy_all_def)

lemma destroy_all_zero [simp]: "destroy_all p 0 w = w"
  by (simp add: destroy_all_def)

text \<open>The relocation, on success.\<close>

lemma copy_to_ptr_Inr:
  assumes c: "copy_to_ptr cap (Ptr (Some rd) 0) v w = Inr (v', w')"
    and inv: "well_formed v w" and rd: "reg w rd ds"
    and ne: "region (data_m v) \<noteq> Some rd" and le: "size_m v \<le> length ds"
  shows "v' = v\<lparr>data_m := Ptr (Some rd) 0, capacity_m := cap\<rparr>"
    and "reg w' rd (tab (length ds)
           (\<lambda>j. if j < size_m v then Slot True (stored w (ptr_add (data_m v) j)) else ds ! j))"
    and "object_size w' = object_size w"
proof -
  obtain w1 where cc: "copy_and_construct (Ptr (Some rd) 0) (data_m v) (size_m v) w = Inr w1"
    and v': "v' = v\<lparr>data_m := Ptr (Some rd) 0, capacity_m := cap\<rparr>"
    and w': "w' = operator_delete (data_m v) (destroy_all (data_m v) (size_m v) w1)"
    using c by (auto simp: copy_to_ptr_def Let_def split: sum.splits prod.splits)
  show "v' = v\<lparr>data_m := Ptr (Some rd) 0, capacity_m := cap\<rparr>" by fact
  have cl: "construct_loop (Ptr (Some rd) 0) (data_m v) (size_m v) 0 w = Inr w1"
    using cc by (auto simp: copy_and_construct_def split: sum.splits prod.splits)
  show "object_size w' = object_size w"
    using copy_and_construct_size(1)[OF cc] w' by simp
  show "reg w' rd (tab (length ds)
           (\<lambda>j. if j < size_m v then Slot True (stored w (ptr_add (data_m v) j)) else ds ! j))"
  proof (cases "region (data_m v)")
    case None
    from wf_null[OF inv None]
    have n: "data_m v = Ptr None 0" "size_m v = 0" by simp_all
    have "w' = w" using cl w' n by simp
    moreover have "tab (length ds)
           (\<lambda>j. if j < size_m v then Slot True (stored w (ptr_add (data_m v) j)) else ds ! j)
        = tab (length ds) (\<lambda>j. ds ! j)"
      using n by (intro tab_cong) simp
    ultimately show ?thesis using rd by (simp add: tab_nth)
  next
    case (Some rs)
    from wf_reg[OF inv Some] obtain ss where
      d: "data_m v = Ptr (Some rs) 0" and rs: "reg w rs ss" and sz: "size_m v \<le> length ss"
      by blast
    have rne: "rd \<noteq> rs" using ne Some by simp
    let ?ds1 = "tab (length ds) (\<lambda>j. if 0 \<le> j \<and> j < size_m v then Slot True (obj (ss ! j)) else ds ! j)"
    have h1: "heap w1 = (heap w)[rd := Some ?ds1]"
      using construct_loop_Inr[OF cl[unfolded d] rd rs rne le sz] .
    have r1: "reg w1 rs ss"
      using reg_heap_update_other[OF h1, of rs ss] rs rne by simp
    let ?w2 = "destroy_all (Ptr (Some rs) 0) (size_m v) w1"
    have h2: "heap ?w2 = (heap w1)[rs := Some (tab (length ss)
                (\<lambda>j. if j < size_m v then Slot False None else ss ! j))]"
      using destroy_all_heap[OF r1 sz] .
    have r2: "reg ?w2 rs (tab (length ss)
                (\<lambda>j. if j < size_m v then Slot False None else ss ! j))"
      using reg_heap_update[OF h2 reg_length[OF r1]] .
    have h3: "heap w' = (heap ?w2)[rs := None]"
      using heap_operator_delete[OF r2] w' d by simp
    have "reg w' rd ?ds1"
      using h1 h2 h3 rne reg_length[OF rd] by (simp add: reg_def)
    moreover have "?ds1 = tab (length ds)
           (\<lambda>j. if j < size_m v then Slot True (stored w (ptr_add (data_m v) j)) else ds ! j)"
      using d rs sz by (intro tab_cong) (simp add: stored_reg)
    ultimately show ?thesis by simp
  qed
qed

section \<open>Relocation into a larger region\<close>

lemma elems_tab: "elems v w = tab (size_m v) (\<lambda>j. stored w (ptr_add (data_m v) j))"
  by (simp add: elems_def tab_def)

lemma wf_stored:
  assumes "well_formed v w" and "j < size_m v"
  shows "stored w (ptr_add (data_m v) j) \<noteq> None"
proof (cases "region (data_m v)")
  case None
  with wf_null[OF assms(1)] assms(2) show ?thesis by simp
next
  case (Some r)
  from wf_reg[OF assms(1) Some] obtain ss where
    "data_m v = Ptr (Some r) 0" "reg w r ss" "size_m v \<le> length ss"
    "\<forall>j<size_m v. live (ss ! j) \<and> bytes (ss ! j) \<noteq> None"
    by blast
  with assms(2) show ?thesis by (simp add: stored_reg obj_live)
qed

lemma wf_region_less:
  "well_formed v w \<Longrightarrow> region (data_m v) = Some r \<Longrightarrow> r < length (heap w)"
  using wf_reg reg_length by blast

text \<open>
  What a pointer sees of the heap does not change when a region is appended, or when
  another region is written or freed.
\<close>

lemma frame_append:
  assumes "heap w1 = heap w @ [x]"
    and "\<And>r. region p = Some r \<Longrightarrow> r < length (heap w)"
  shows "slots_of w1 p = slots_of w p" and "allocated w1 p = allocated w p"
    and "stored w1 (ptr_add p j) = stored w (ptr_add p j)"
proof -
  have "slots_of w1 p = slots_of w p \<and> allocated w1 p = allocated w p \<and>
        stored w1 (ptr_add p j) = stored w (ptr_add p j)"
  proof (cases "region p")
    case None
    then show ?thesis
      by (simp add: slots_of_def allocated_def stored_def slot_at_def ptr_add_def)
  next
    case (Some r)
    then have "r < length (heap w)" using assms(2) by simp
    with Some assms(1) show ?thesis
      by (simp add: slots_of_def allocated_def stored_def slot_at_def ptr_add_def nth_append)
  qed
  then show "slots_of w1 p = slots_of w p" and "allocated w1 p = allocated w p"
    and "stored w1 (ptr_add p j) = stored w (ptr_add p j)" by simp_all
qed

lemma frame_update:
  assumes "heap w1 = (heap w)[rd := x]" and "region p \<noteq> Some rd"
  shows "slots_of w1 p = slots_of w p" and "allocated w1 p = allocated w p"
    and "stored w1 (ptr_add p j) = stored w (ptr_add p j)"
proof -
  have "slots_of w1 p = slots_of w p \<and> allocated w1 p = allocated w p \<and>
        stored w1 (ptr_add p j) = stored w (ptr_add p j)"
  proof (cases "region p")
    case None
    then show ?thesis
      by (simp add: slots_of_def allocated_def stored_def slot_at_def ptr_add_def)
  next
    case (Some r)
    then have "r \<noteq> rd" using assms(2) by simp
    with Some assms(1) show ?thesis
      by (simp add: slots_of_def allocated_def stored_def slot_at_def ptr_add_def)
  qed
  then show "slots_of w1 p = slots_of w p" and "allocated w1 p = allocated w p"
    and "stored w1 (ptr_add p j) = stored w (ptr_add p j)" by simp_all
qed

lemma wf_cong:
  "slots_of w1 (data_m v) = slots_of w (data_m v) \<Longrightarrow>
   allocated w1 (data_m v) = allocated w (data_m v) \<Longrightarrow>
   object_size w1 = object_size w \<Longrightarrow>
   well_formed v w1 = well_formed v w"
  by (simp add: well_formed_def sizeof_T_def)

lemma invariant_cong:
  "slots_of w1 (data_m v) = slots_of w (data_m v) \<Longrightarrow>
   allocated w1 (data_m v) = allocated w (data_m v) \<Longrightarrow>
   object_size w1 = object_size w \<Longrightarrow>
   invariant v w1 = invariant v w"
  by (simp add: invariant_def well_formed_def sizeof_T_def)

lemma heap_append_frame:
  assumes "heap w1 = heap w @ [x]" and "well_formed v w" and "object_size w1 = object_size w"
  shows "well_formed v w1"
    and "stored w1 (ptr_add (data_m v) j) = stored w (ptr_add (data_m v) j)"
    and "region (data_m v) \<noteq> Some (length (heap w))"
    and "slots_of w1 (data_m v) = slots_of w (data_m v)"
    and "invariant v w1 = invariant v w"
proof -
  have less: "\<And>r. region (data_m v) = Some r \<Longrightarrow> r < length (heap w)"
    using wf_region_less[OF assms(2)] .
  note fr = frame_append[OF assms(1) less]
  show "well_formed v w1" using wf_cong[OF fr(1,2) assms(3)] assms(2) by simp
  show "stored w1 (ptr_add (data_m v) j) = stored w (ptr_add (data_m v) j)" using fr(3) .
  show "region (data_m v) \<noteq> Some (length (heap w))" using less by auto
  show "slots_of w1 (data_m v) = slots_of w (data_m v)" using fr(1) .
  show "invariant v w1 = invariant v w" using invariant_cong[OF fr(1,2) assms(3)] .
qed

lemma heap_update_frame:
  assumes "heap w1 = (heap w)[rd := x]" and "well_formed v w"
    and "region (data_m v) \<noteq> Some rd" and "object_size w1 = object_size w"
  shows "well_formed v w1"
    and "stored w1 (ptr_add (data_m v) j) = stored w (ptr_add (data_m v) j)"
    and "slots_of w1 (data_m v) = slots_of w (data_m v)"
    and "invariant v w1 = invariant v w"
proof -
  note fr = frame_update[OF assms(1,3)]
  show "well_formed v w1" using wf_cong[OF fr(1,2) assms(4)] assms(2) by simp
  show "stored w1 (ptr_add (data_m v) j) = stored w (ptr_add (data_m v) j)" using fr(3) .
  show "slots_of w1 (data_m v) = slots_of w (data_m v)" using fr(1) .
  show "invariant v w1 = invariant v w" using invariant_cong[OF fr(1,2) assms(4)] .
qed


text \<open>The relocation, when an element copy throws.\<close>

lemma construct_loop_Inl_less: "construct_loop dst src n i w = Inl x \<Longrightarrow> i < n"
  by (rule ccontr) (simp add: construct_loop.simps[of dst src n i])

lemma copy_and_construct_Inl_pos: "copy_and_construct dst src n w = Inl x \<Longrightarrow> 0 < n"
  by (cases "construct_loop dst src n 0 w")
     (auto simp: copy_and_construct_def dest: construct_loop_Inl_less)

lemma copy_to_ptr_Inl:
  assumes "copy_to_ptr cap p v w = Inl (e, v', w')"
  shows "v' = v\<lparr>data_m := p, capacity_m := cap, size_m := 0\<rparr>" and "0 < size_m v"
proof -
  obtain x where cc: "copy_and_construct p (data_m v) (size_m v) w = Inl x"
    and v': "v' = v\<lparr>data_m := p, capacity_m := cap, size_m := 0\<rparr>"
    using assms by (auto simp: copy_to_ptr_def Let_def split: sum.splits prod.splits)
  show "v' = v\<lparr>data_m := p, capacity_m := cap, size_m := 0\<rparr>" by fact
  show "0 < size_m v" using copy_and_construct_Inl_pos[OF cc] .
qed

lemma resize_Inl:
  assumes "resize n v w = Inl (ElementConstructionFailure, v', w')"
  shows "size_m v' = 0" and "capacity_m v' = n" and "0 < size_m v"
proof -
  let ?c = "size_t (n * sizeof_T w)"
  have n: "n \<noteq> 0" using assms by (auto simp: resize_def Let_def split: if_splits)
  obtain p w1 where new: "operator_new ?c w = Inr (p, w1)"
    and c: "copy_to_ptr n p v w1 = Inl (ElementConstructionFailure, v', w')"
  proof (cases "operator_new ?c w")
    case (Inl x)
    then obtain e w1 where x: "operator_new ?c w = Inl (e, w1)" by (cases x) simp
    from operator_new_Inl(1)[OF x] x assms n have False
      by (simp add: resize_def)
    then show ?thesis ..
  next
    case (Inr y)
    then obtain p w1 where y: "operator_new ?c w = Inr (p, w1)" by (cases y) simp
    with assms n have "copy_to_ptr n p v w1 = Inl (ElementConstructionFailure, v', w')"
      by (simp add: resize_def)
    with y that show ?thesis by blast
  qed
  from copy_to_ptr_Inl[OF c]
  show "size_m v' = 0" and "capacity_m v' = n" and "0 < size_m v" by simp_all
qed

section \<open>Erasing a range\<close>

lemma erase_loop_done [simp]: "\<not> i < n \<Longrightarrow> erase_loop d a b n i w = Inr w"
  by (simp add: erase_loop.simps[of d a b n i])

lemma take_drop_tab:
  assumes "a \<le> b" and "b \<le> n"
  shows "take a (tab n f) @ drop b (tab n f) = tab (n - (b - a)) (\<lambda>j. if j < a then f j else f (j + (b - a)))"
proof (rule nth_equalityI)
  show "length (take a (tab n f) @ drop b (tab n f)) =
        length (tab (n - (b - a)) (\<lambda>j. if j < a then f j else f (j + (b - a))))"
    using assms by simp
next
  fix j assume "j < length (take a (tab n f) @ drop b (tab n f))"
  then have j: "j < n - (b - a)" using assms by simp
  show "(take a (tab n f) @ drop b (tab n f)) ! j =
        tab (n - (b - a)) (\<lambda>j. if j < a then f j else f (j + (b - a))) ! j"
  proof (cases "j < a")
    case True
    with j assms show ?thesis by (simp add: nth_append)
  next
    case False
    then have "b + (j - a) = j + (b - a)" using assms by simp
    with False j assms show ?thesis by (simp add: nth_append min_absorb2)
  qed
qed

lemma take_pad_tab:
  "take b (tab n g) @ replicate (n - b) None = tab n (\<lambda>j. if j < b then g j else None)"
proof (rule nth_equalityI)
  show "length (take b (tab n g) @ replicate (n - b) None) =
        length (tab n (\<lambda>j. if j < b then g j else None))"
    by simp
next
  fix j assume "j < length (take b (tab n g) @ replicate (n - b) None)"
  then have j: "j < n" by simp
  show "(take b (tab n g) @ replicate (n - b) None) ! j =
        tab n (\<lambda>j. if j < b then g j else None) ! j"
    using j by (cases "j < b") (simp_all add: nth_append)
qed

text \<open>The storage after a successful \<open>erase\<close>.\<close>

lemma erase_Inr_reg:
  assumes e: "erase (ptr_add (begin_v v) a) (ptr_add (begin_v v) b) v w = Inr (it, v', w')"
    and d: "data_m v = Ptr (Some r) 0" and r: "reg w r ss" and sz: "size_m v \<le> length ss"
    and ab: "a \<le> b"
  shows "reg w' r (tab (length ss)
        (\<lambda>j. if b \<le> j \<and> j < size_m v then Slot False None
              else if a \<le> j \<and> j < a + size_m v - b \<and> live (ss ! j)
                   then Slot True (obj (ss ! (j + (b - a))))
                   else ss ! j))"
proof -
  have pd: "ptr_diff (ptr_add (begin_v v) b) (begin_v v) = b"
          "ptr_diff (ptr_add (begin_v v) a) (begin_v v) = a"
          "ptr_diff (ptr_add (begin_v v) b) (ptr_add (begin_v v) a) = b - a"
    by (simp_all add: ptr_diff_def ptr_add_def)
  have l: "erase_loop (data_m v) a b (size_m v) b w = Inr w'"
    using e unfolding erase_def pd Let_def by (auto split: sum.splits)
  have h: "heap w' = (heap w)[r := Some (tab (length ss)
        (\<lambda>j. if b \<le> j \<and> j < size_m v then Slot False None
              else if a + b - b \<le> j \<and> j < a + size_m v - b \<and> live (ss ! j)
                   then Slot True (obj (ss ! (j + (b - a))))
                   else ss ! j))]"
    using erase_loop_Inr[OF l[unfolded d] r sz ab] by simp
  have eq: "tab (length ss)
        (\<lambda>j. if b \<le> j \<and> j < size_m v then Slot False None
              else if a + b - b \<le> j \<and> j < a + size_m v - b \<and> live (ss ! j)
                   then Slot True (obj (ss ! (j + (b - a))))
                   else ss ! j) =
      tab (length ss)
        (\<lambda>j. if b \<le> j \<and> j < size_m v then Slot False None
              else if a \<le> j \<and> j < a + size_m v - b \<and> live (ss ! j)
                   then Slot True (obj (ss ! (j + (b - a))))
                   else ss ! j)"
    by (intro tab_cong) simp
  from reg_heap_update[OF h[unfolded eq] reg_length[OF r]] show ?thesis .
qed

text \<open>
  The members and the elements after a successful \<open>erase\<close>: below \<open>b\<close> the elements are the
  expected ones; from \<open>b\<close> on no object lives.
\<close>

lemma erase_Inr:
  assumes e: "erase (ptr_add (begin_v v) a) (ptr_add (begin_v v) b) v w = Inr (it, v', w')"
    and inv: "well_formed v w" and ab: "a \<le> b" "b \<le> size_m v"
  shows "v' = v\<lparr>size_m := size_m v - (b - a)\<rparr>"
    and "it = ptr_add (begin_v v') a"
    and "elems v' w' =
           take b (take a (elems v w) @ drop b (elems v w)) @
           replicate (size_m v - (b - a) - b) None"
    and "b < size_m v \<Longrightarrow>
           stored w' it = (if a < b then stored w (ptr_add (begin_v v) b) else None)"
    and "object_size w' = object_size w"
proof -
  have d: "ptr_diff (ptr_add (begin_v v) b) (begin_v v) = b"
          "ptr_diff (ptr_add (begin_v v) a) (begin_v v) = a"
          "ptr_diff (ptr_add (begin_v v) b) (ptr_add (begin_v v) a) = b - a"
    by (simp_all add: ptr_diff_def ptr_add_def)
  obtain w1 where l: "erase_loop (data_m v) a b (size_m v) b w = Inr w1"
    and v': "v' = v\<lparr>size_m := size_m v - (b - a)\<rparr>" and w': "w' = w1"
    and it: "it = ptr_add (data_m v) a"
    using e unfolding erase_def d Let_def by (auto split: sum.splits)
  show "v' = v\<lparr>size_m := size_m v - (b - a)\<rparr>" by fact
  show it': "it = ptr_add (begin_v v') a" using it v' by (simp add: begin_v_def)
  show "object_size w' = object_size w" using erase_loop_size[OF l] w' by simp
  let ?n = "size_m v"
  let ?n' = "?n - (b - a)"
  have "elems v' w' =
           take b (take a (elems v w) @ drop b (elems v w)) @ replicate (?n' - b) None \<and>
        (b < size_m v \<longrightarrow>
           stored w' it = (if a < b then stored w (ptr_add (begin_v v) b) else None))"
  proof (cases "region (data_m v)")
    case None
    from wf_null[OF inv None] have "size_m v = 0" by simp
    with ab v' show ?thesis by (simp add: elems_empty)
  next
    case (Some r)
    from wf_reg[OF inv Some] obtain ss where
      dv: "data_m v = Ptr (Some r) 0" and r: "reg w r ss" and sz: "size_m v \<le> length ss"
      and lv: "\<forall>j<?n. live (ss ! j) \<and> bytes (ss ! j) \<noteq> None"
      by blast
    define ss' where "ss' = tab (length ss)
        (\<lambda>j. if b \<le> j \<and> j < ?n then Slot False None
              else if a \<le> j \<and> j < a + ?n - b \<and> live (ss ! j)
                   then Slot True (obj (ss ! (j + (b - a))))
                   else ss ! j)"
    have r': "reg w' r ss'"
      using erase_Inr_reg[OF e dv r sz ab(1)] by (simp add: ss'_def)
    have len': "length ss' = length ss" by (simp add: ss'_def)
    have nth': "obj (ss' ! j) =
                  (if j < b then (if j < a then obj (ss ! j) else obj (ss ! (j + (b - a))))
                   else None)" if "j < ?n'" for j
    proof -
      have jl: "j < length ss" "j < ?n" using that sz by simp_all
      show ?thesis
      proof (cases "j < b")
        case False
        with jl show ?thesis by (simp add: ss'_def)
      next
        case True
        have "live (ss ! j)" using lv jl(2) by blast
        with True jl that ab show ?thesis by (auto simp: ss'_def)
      qed
    qed
    have e0: "elems v w = tab ?n (\<lambda>j. obj (ss ! j))"
      using elems_reg[OF dv r sz] .
    have "elems v' w' = tab ?n' (\<lambda>j. obj (ss' ! j))"
      using elems_reg[of v' r w' ss'] dv v' r' sz len' by simp
    also have "\<dots> = tab ?n'
        (\<lambda>j. if j < b then (if j < a then obj (ss ! j) else obj (ss ! (j + (b - a)))) else None)"
      using nth' by (intro tab_cong) simp
    also have "\<dots> = take b (tab ?n' (\<lambda>j. if j < a then obj (ss ! j) else obj (ss ! (j + (b - a)))))
                      @ replicate (?n' - b) None"
      by (rule take_pad_tab[symmetric])
    also have "tab ?n' (\<lambda>j. if j < a then obj (ss ! j) else obj (ss ! (j + (b - a)))) =
               take a (elems v w) @ drop b (elems v w)"
      unfolding e0 using take_drop_tab[OF ab, of "\<lambda>j. obj (ss ! j)"] by simp
    finally have 1: "elems v' w' =
           take b (take a (elems v w) @ drop b (elems v w)) @ replicate (?n' - b) None" .
    have 2: "stored w' it = (if a < b then stored w (ptr_add (begin_v v) b) else None)"
      if "b < size_m v"
    proof -
      have al: "a < length ss" "b < length ss" using that ab sz by simp_all
      have "stored w' it = obj (ss' ! a)"
        using it dv r' al len' by (simp add: stored_reg)
      also have "\<dots> = (if a < b then obj (ss ! b) else None)"
      proof (cases "a < b")
        case True
        have "live (ss ! a)" using lv that True by simp
        moreover have "a < a + ?n - b" "a + (b - a) = b" using that ab by auto
        ultimately show ?thesis using True al by (simp add: ss'_def)
      next
        case False
        then have "a = b" using ab by simp
        with that al show ?thesis by (simp add: ss'_def)
      qed
      also have "\<dots> = (if a < b then stored w (ptr_add (begin_v v) b) else None)"
        using dv r al by (simp add: stored_reg begin_v_def)
      finally show ?thesis .
    qed
    from 1 2 show ?thesis by blast
  qed
  then show "elems v' w' =
           take b (take a (elems v w) @ drop b (elems v w)) @ replicate (?n' - b) None"
    and "b < size_m v \<Longrightarrow>
           stored w' it = (if a < b then stored w (ptr_add (begin_v v) b) else None)"
    by blast+
qed

text \<open>Every element of a well-formed container has a value.\<close>

lemma wf_elems_Some: "well_formed v w \<Longrightarrow> None \<notin> set (elems v w)"
proof
  assume wf: "well_formed v w" and "None \<in> set (elems v w)"
  then obtain j where "j < size_m v" "stored w (ptr_add (data_m v) j) = None"
    by (auto simp: elems_def)
  with wf_stored[OF wf] show False by blast
qed

lemma length_elems [simp]: "length (elems v w) = size_m v"
  by (simp add: elems_def)

text \<open>
  The elements after a successful \<open>erase\<close> are the expected ones exactly when the tail
  behind the range is not longer than the range.
\<close>

lemma erase_elems_iff:
  assumes e: "erase (ptr_add (begin_v v) a) (ptr_add (begin_v v) b) v w = Inr (it, v', w')"
    and inv: "well_formed v w" and ab: "a \<le> b" "b \<le> size_m v"
  shows "elems v' w' = take a (elems v w) @ drop b (elems v w) \<longleftrightarrow> size_m v - b \<le> b - a"
proof -
  define ys where "ys = take a (elems v w) @ drop b (elems v w)"
  define k where "k = size_m v - (b - a) - b"
  have el: "elems v' w' = take b ys @ replicate k None"
    using erase_Inr(3)[OF e inv ab] by (simp only: ys_def k_def)
  have ly: "length ys = size_m v - (b - a)" using ab by (simp add: ys_def)
  have ny: "None \<notin> set ys"
    using wf_elems_Some[OF inv] by (auto simp: ys_def dest: in_set_takeD in_set_dropD)
  have "elems v' w' = ys \<longleftrightarrow> size_m v - b \<le> b - a"
  proof
    assume "size_m v - b \<le> b - a"
    then have "k = 0" "length ys \<le> b" using ab ly by (simp_all add: k_def)
    with el show "elems v' w' = ys" by simp
  next
    assume eq: "elems v' w' = ys"
    show "size_m v - b \<le> b - a"
    proof (rule ccontr)
      assume "\<not> size_m v - b \<le> b - a"
      then have "0 < k" using ab by (simp add: k_def)
      then have "None \<in> set (take b ys @ replicate k None)" by simp
      with el eq ny show False by simp
    qed
  qed
  then show ?thesis by (simp only: ys_def)
qed

text \<open>
  After a successful \<open>erase\<close> the invariant holds only if the tail behind the range is as
  long as the range.
\<close>

lemma erase_invariant_only_if:
  assumes e: "erase (ptr_add (begin_v v) a) (ptr_add (begin_v v) b) v w = Inr (it, v', w')"
    and inv: "invariant v w" and ab: "a \<le> b" "b \<le> size_m v"
    and inv': "invariant v' w'"
  shows "size_m v - b = b - a"
proof (cases "region (data_m v)")
  case None
  from invariant_null[OF inv None] ab show ?thesis by simp
next
  case (Some r)
  let ?n = "size_m v"
  from invariant_reg[OF inv Some] obtain ss where
    d: "data_m v = Ptr (Some r) 0" and r: "reg w r ss" and sz: "?n \<le> length ss"
    and lv: "\<forall>j<?n. live (ss ! j) \<and> bytes (ss ! j) \<noteq> None"
    by blast
  define ss' where "ss' = tab (length ss)
        (\<lambda>j. if b \<le> j \<and> j < ?n then Slot False None
              else if a \<le> j \<and> j < a + ?n - b \<and> live (ss ! j)
                   then Slot True (obj (ss ! (j + (b - a))))
                   else ss ! j)"
  have r': "reg w' r ss'" using erase_Inr_reg[OF e d r sz ab(1)] by (simp add: ss'_def)
  have v': "v' = v\<lparr>size_m := ?n - (b - a)\<rparr>"
    using erase_Inr(1)[OF e invariant_wf[OF inv] ab] .
  then have Some': "region (data_m v') = Some r" using Some by simp
  from invariant_reg[OF inv' Some'] obtain ss2 where
    r2: "reg w' r ss2"
    and lv2: "\<forall>j<size_m v'. live (ss2 ! j) \<and> bytes (ss2 ! j) \<noteq> None"
    and dead2: "\<forall>j. size_m v' \<le> j \<longrightarrow> j < length ss2 \<longrightarrow> \<not> live (ss2 ! j)"
    by blast
  have ss2: "ss2 = ss'" using reg_fun[OF r' r2] .
  show ?thesis
  proof (rule ccontr)
    assume ne: "?n - b \<noteq> b - a"
    then consider "b - a < ?n - b" | "?n - b < b - a" by arith
    then show False
    proof cases
      case 1
      then have bl: "b < size_m v'" "b < length ss" "b < ?n" using v' ab sz by simp_all
      from lv2 bl(1) have "live (ss2 ! b)" by simp
      moreover have "\<not> live (ss' ! b)" using bl by (simp add: ss'_def)
      ultimately show False using ss2 by simp
    next
      case 2
      define j where "j = ?n - (b - a)"
      have j: "size_m v' \<le> j" "j < length ss" "j < b" "j < ?n" "\<not> j < a + ?n - b"
        using 2 v' ab sz by (simp_all add: j_def)
      have "live (ss ! j)" using lv j(4) by blast
      then have "live (ss' ! j)" using j(2,3,5) by (simp add: ss'_def)
      moreover have "\<not> live (ss2 ! j)"
      proof -
        have "j < length ss2" using j(2) ss2 by (simp add: ss'_def)
        with dead2 j(1) show ?thesis by blast
      qed
      ultimately show False using ss2 by simp
    qed
  qed
qed

section \<open>Rotating an element into place\<close>

lemma copy_local_Inr:
  assumes "copy_local (Ptr (Some r) k) w = Inr (x, w1)" and "reg w r ss" and "k < length ss"
  shows "x = obj (ss ! k)" and "heap w1 = heap w"
  using assms
  by (auto simp: copy_local_def read_elem_reg split: prod.splits bool.splits if_splits)

lemma move_element_size:
  assumes "move_element f t v w = Inr w'"
  shows "object_size w' = object_size w"
proof (cases "f = t")
  case True
  with assms show ?thesis by (simp add: move_element_def)
next
  case False
  then obtain x w1 w2 where cl: "copy_local (ptr_add (data_m v) f) w = Inr (x, w1)"
    and sl: "shift_loop (data_m v) t f w1 = Inr w2"
    and as: "assign_at (ptr_add (data_m v) t) x w2 = Inr w'"
    using assms by (auto simp: move_element_def split: sum.splits prod.splits if_splits)
  from copy_local_size(1)[OF cl] shift_loop_size[OF sl] assign_at_size(1)[OF as]
  show ?thesis by simp
qed

lemma move_element_Inr:
  assumes m: "move_element f t v w = Inr w'"
    and d: "data_m v = Ptr (Some r) 0" and r: "reg w r ss" and f: "f < length ss"
  shows "t \<le> f"
    and "heap w' = (heap w)[r := Some (tab (length ss)
          (\<lambda>j. if j = t \<and> live (ss ! t) then Slot True (obj (ss ! f))
                else if t < j \<and> j \<le> f \<and> live (ss ! j) then Slot True (obj (ss ! (j - 1)))
                else ss ! j))]"
proof -
  show tf: "t \<le> f" using m by (auto simp: move_element_def split: if_splits)
  let ?res = "tab (length ss)
          (\<lambda>j. if j = t \<and> live (ss ! t) then Slot True (obj (ss ! f))
                else if t < j \<and> j \<le> f \<and> live (ss ! j) then Slot True (obj (ss ! (j - 1)))
                else ss ! j)"
  show "heap w' = (heap w)[r := Some ?res]"
  proof (cases "f = t")
    case True
    then have "w' = w" using m by (simp add: move_element_def)
    moreover have "?res = tab (length ss) (\<lambda>j. ss ! j)"
    proof (intro tab_cong)
      fix j assume "j < length ss"
      show "(if j = t \<and> live (ss ! t) then Slot True (obj (ss ! f))
                else if t < j \<and> j \<le> f \<and> live (ss ! j) then Slot True (obj (ss ! (j - 1)))
                else ss ! j) = ss ! j"
        using True by (cases "ss ! t") (auto simp: obj_def)
    qed
    ultimately show ?thesis using r by (simp add: heap_update_same tab_nth)
  next
    case False
    obtain x w1 w2 where cl: "copy_local (Ptr (Some r) f) w = Inr (x, w1)"
      and sl: "shift_loop (Ptr (Some r) 0) t f w1 = Inr w2"
      and as: "assign_at (Ptr (Some r) t) x w2 = Inr w'"
      using m False tf d
      by (auto simp: move_element_def split: sum.splits prod.splits)
    have x: "x = obj (ss ! f)" and h1: "heap w1 = heap w"
      using copy_local_Inr[OF cl r f] by simp_all
    have r1: "reg w1 r ss" using r h1 by (simp add: reg_def)
    define ss2 where "ss2 = tab (length ss)
        (\<lambda>j. if t < j \<and> j \<le> f \<and> live (ss ! j) then Slot True (obj (ss ! (j - 1))) else ss ! j)"
    have h2: "heap w2 = (heap w1)[r := Some ss2]"
      using shift_loop_Inr[OF sl r1 f] by (simp add: ss2_def)
    have r2: "reg w2 r ss2"
      using reg_heap_update[OF h2 reg_length[OF r1]] .
    have t: "t < length ss" "t < length ss2" using tf f by (simp_all add: ss2_def)
    have h3: "heap w' = (heap w2)[r := Some (ss2[t := (if live (ss2 ! t) then Slot True x
                                                       else ss2 ! t)])]"
      using assign_at_Inr(1)[OF as r2 t(2)] .
    have "ss2[t := (if live (ss2 ! t) then Slot True x else ss2 ! t)] = ?res"
    proof (rule nth_equalityI)
      show "length (ss2[t := (if live (ss2 ! t) then Slot True x else ss2 ! t)]) = length ?res"
        by (simp add: ss2_def)
    next
      fix j assume "j < length (ss2[t := (if live (ss2 ! t) then Slot True x else ss2 ! t)])"
      then have j: "j < length ss" by (simp add: ss2_def)
      have st: "ss2 ! t = ss ! t" using t by (simp add: ss2_def)
      show "ss2[t := (if live (ss2 ! t) then Slot True x else ss2 ! t)] ! j = ?res ! j"
      proof (cases "j = t")
        case True
        with j t st x show ?thesis by simp
      next
        case False
        with j t show ?thesis by (simp add: ss2_def)
      qed
    qed
    with h3 h2 h1 show ?thesis by simp
  qed
qed

lemma insert_tab:
  assumes "p \<le> m"
  shows "take p (tab m f) @ x # drop p (tab m f) =
         tab (Suc m) (\<lambda>j. if j < p then f j else if j = p then x else f (j - 1))"
proof (rule nth_equalityI)
  show "length (take p (tab m f) @ x # drop p (tab m f)) =
        length (tab (Suc m) (\<lambda>j. if j < p then f j else if j = p then x else f (j - 1)))"
    using assms by simp
next
  fix j assume "j < length (take p (tab m f) @ x # drop p (tab m f))"
  then have j: "j < Suc m" using assms by simp
  consider "j < p" | "j = p" | "p < j" by arith
  then show "(take p (tab m f) @ x # drop p (tab m f)) ! j =
        tab (Suc m) (\<lambda>j. if j < p then f j else if j = p then x else f (j - 1)) ! j"
  proof cases
    case 1
    with j assms show ?thesis by (simp add: nth_append)
  next
    case 2
    with j assms show ?thesis by (simp add: nth_append min_absorb2)
  next
    case 3
    then obtain k where k: "j - p = Suc k" by (metis Suc_diff_Suc)
    then have "p + k = j - 1" using 3 by simp
    with 3 j assms k show ?thesis by (simp add: nth_append min_absorb2)
  qed
qed

text \<open>
  The rotation of the appended element into its place, in a storage whose first \<open>m + 1\<close>
  slots hold live objects.
\<close>

lemma insert_rotate:
  assumes mv: "move_element (size_m v1 - 1) p v1 w1 = Inr w'"
    and d: "data_m v1 = Ptr (Some r) 0" and r: "reg w1 r ss"
    and sz: "size_m v1 = Suc m" "Suc m \<le> length ss" "length ss = capacity_m v1"
    and bd: "capacity_m v1 * sizeof_T w1 \<le> ptrdiff_max"
    and old: "\<And>j. j < m \<Longrightarrow> live (ss ! j) \<and> bytes (ss ! j) = xs j \<and> xs j \<noteq> None"
    and new: "ss ! m = Slot True (Some e)"
  shows "well_formed v1 w'"
    and "elems v1 w' = tab (Suc m) (\<lambda>j. if j < p then xs j else if j = p then Some e else xs (j - 1))"
    and "(\<And>j. m < j \<Longrightarrow> j < length ss \<Longrightarrow> \<not> live (ss ! j)) \<Longrightarrow> invariant v1 w'"
    and "object_size w' = object_size w1"
proof -
  define res where "res = tab (length ss)
          (\<lambda>j. if j = p \<and> live (ss ! p) then Slot True (obj (ss ! m))
                else if p < j \<and> j \<le> m \<and> live (ss ! j) then Slot True (obj (ss ! (j - 1)))
                else ss ! j)"
  let ?val = "\<lambda>j. if j < p then xs j else if j = p then Some e else xs (j - 1)"
  have m: "m < length ss" using sz by simp
  have mv': "move_element m p v1 w1 = Inr w'" using mv sz by simp
  show o: "object_size w' = object_size w1" using move_element_size[OF mv'] .
  have pm: "p \<le> m" and h: "heap w' = (heap w1)[r := Some res]"
    using move_element_Inr[OF mv' d r m] by (simp_all add: res_def)
  have r': "reg w' r res"
    using reg_heap_update[OF h reg_length[OF r]] .
  have len: "length res = length ss" by (simp add: res_def)
  have all: "live (ss ! j) \<and> obj (ss ! j) = (if j < m then xs j else Some e)" if "j \<le> m" for j
    using that old[of j] new by (cases "j = m") (auto simp: obj_def)
  have val: "res ! j = Slot True (?val j)" if "j \<le> m" for j
  proof -
    have jl: "j < length ss" using that m by simp
    consider "j < p" | "j = p" | "p < j" by arith
    then show ?thesis
    proof cases
      case 1
      then have jm: "j < m" using pm by simp
      have "ss ! j = Slot True (xs j)" using old[OF jm] by (cases "ss ! j") simp
      with 1 jl show ?thesis by (simp add: res_def)
    next
      case 2
      with jl all[of p] all[of m] pm show ?thesis by (simp add: res_def)
    next
      case 3
      then have "j - 1 < m" "j - 1 \<le> m" using that by simp_all
      with 3 that jl all[of j] all[of "j - 1"] show ?thesis by (simp add: res_def)
    qed
  qed
  have some: "?val j \<noteq> None" if "j \<le> m" for j
    using that pm old[of j] old[of "j - 1"] by (cases "j < p"; cases "j = p") auto
  have "elems v1 w' = tab (Suc m) (\<lambda>j. obj (res ! j))"
    using elems_reg[OF d r'] sz len by simp
  also have "\<dots> = tab (Suc m) ?val"
    using val by (intro tab_cong) simp
  finally show "elems v1 w' = tab (Suc m) ?val" .
  have bd': "capacity_m v1 * sizeof_T w' \<le> ptrdiff_max"
    using bd sizeof_T_cong[OF o] by simp
  show wf: "well_formed v1 w'"
  proof (rule wfI_reg[OF d r'])
    show "length res = capacity_m v1" using sz len by simp
    show "0 < capacity_m v1" using sz by simp
    show "size_m v1 \<le> capacity_m v1" using sz by simp
    show "capacity_m v1 * sizeof_T w' \<le> ptrdiff_max" by fact
  next
    fix j assume "j < size_m v1"
    then have j: "j \<le> m" using sz by simp
    show "live (res ! j) \<and> bytes (res ! j) \<noteq> None" using val[OF j] some[OF j] by simp
  qed
  show "invariant v1 w'"
    if b: "\<And>j. m < j \<Longrightarrow> j < length ss \<Longrightarrow> \<not> live (ss ! j)"
  proof (rule invariantI_wf[OF wf d r'])
    fix j assume j: "size_m v1 \<le> j" "j < length res"
    then have jl: "j < length ss" "m < j" using len sz by simp_all
    then have "\<not> live (ss ! j)" using b[of j] by simp
    moreover have "res ! j = ss ! j" using jl pm calculation by (simp add: res_def)
    ultimately show "\<not> live (res ! j)" by simp
  qed
qed

section \<open>Insertion\<close>

lemma insert_room:
  assumes c: "construct_at (ptr_add (data_m v) (size_m v)) (Some e) w = Inr w1"
    and mv: "move_element (size_m v) p (v\<lparr>size_m := size_m v + 1\<rparr>) w1 = Inr w'"
    and inv: "well_formed v w" and room: "size_m v \<noteq> capacity_m v"
  shows "well_formed (v\<lparr>size_m := size_m v + 1\<rparr>) w'"
    and "elems (v\<lparr>size_m := size_m v + 1\<rparr>) w' =
         tab (Suc (size_m v)) (\<lambda>j. if j < p then stored w (ptr_add (data_m v) j)
               else if j = p then Some e else stored w (ptr_add (data_m v) (j - 1)))"
    and "invariant v w \<Longrightarrow> invariant (v\<lparr>size_m := size_m v + 1\<rparr>) w'"
    and "object_size w' = object_size w"
proof -
  let ?m = "size_m v"
  let ?v1 = "v\<lparr>size_m := size_m v + 1\<rparr>"
  have "region (data_m v) \<noteq> None"
  proof
    assume "region (data_m v) = None"
    from wf_null[OF inv this] room show False by simp
  qed
  then obtain r where Some: "region (data_m v) = Some r" by auto
  from wf_reg[OF inv Some] obtain ss where
    d: "data_m v = Ptr (Some r) 0" and r: "reg w r ss" and len: "length ss = capacity_m v"
    and sz: "size_m v \<le> length ss"
    and bs: "\<forall>j<size_m v. live (ss ! j) \<and> bytes (ss ! j) \<noteq> None"
    by blast
  have m: "?m < length ss" using sz len room by simp
  let ?ss1 = "ss[?m := Slot True (Some e)]"
  have h1: "heap w1 = (heap w)[r := Some ?ss1]"
    using construct_at_Inr(1)[OF c[unfolded d, simplified] r m] .
  have o1: "object_size w1 = object_size w" using construct_at_size(1)[OF c] .
  have r1: "reg w1 r ?ss1"
    using reg_heap_update[OF h1 reg_length[OF r]] .
  have st: "stored w (ptr_add (data_m v) j) = bytes (ss ! j)" if "j < ?m" for j
    using that d r sz bs by (simp add: stored_reg obj_live)
  have old: "live (?ss1 ! j) \<and> bytes (?ss1 ! j) = stored w (ptr_add (data_m v) j) \<and>
             stored w (ptr_add (data_m v) j) \<noteq> None" if "j < ?m" for j
    using that st[OF that] bs by simp
  have new: "?ss1 ! ?m = Slot True (Some e)" using m by simp
  have mv': "move_element (size_m ?v1 - 1) p ?v1 w1 = Inr w'" using mv by simp
  have d1: "data_m ?v1 = Ptr (Some r) 0" using d by simp
  have s1: "size_m ?v1 = Suc ?m" "Suc ?m \<le> length ?ss1" "length ?ss1 = capacity_m ?v1"
    using m len by simp_all
  have bd: "capacity_m ?v1 * sizeof_T w1 \<le> ptrdiff_max"
    using wf_bound[OF inv] sizeof_T_cong[OF o1] by simp
  note rot = insert_rotate[OF mv' d1 r1 s1 bd old new]
  show "well_formed ?v1 w'" using rot(1) .
  show "elems ?v1 w' =
         tab (Suc ?m) (\<lambda>j. if j < p then stored w (ptr_add (data_m v) j)
               else if j = p then Some e else stored w (ptr_add (data_m v) (j - 1)))"
    using rot(2) .
  show "object_size w' = object_size w" using rot(4) o1 by simp
  show "invariant ?v1 w'" if i: "invariant v w"
  proof (rule rot(3))
    from invariant_reg[OF i Some] obtain ss2 where
      r2: "reg w r ss2"
      and dead: "\<forall>j. size_m v \<le> j \<longrightarrow> j < length ss2 \<longrightarrow> \<not> live (ss2 ! j)"
      by blast
    have e: "ss2 = ss" using reg_fun[OF r r2] .
    show "\<not> live (?ss1 ! j)" if "?m < j" "j < length ?ss1" for j using that dead e by simp
  qed
qed

lemma resize_and_insert_Inr:
  assumes ri: "resize_and_insert n p e v w = Inr (v', w')"
    and inv: "well_formed v w" and n: "size_m v < n"
    and nw: "n * sizeof_T w \<le> size_max"
  shows "size_m v' = Suc (size_m v)" and "invariant v' w'"
    and "elems v' w' =
         tab (Suc (size_m v)) (\<lambda>j. if j < p then stored w (ptr_add (data_m v) j)
               else if j = p then Some e else stored w (ptr_add (data_m v) (j - 1)))"
    and "data_m v' = Ptr (region (data_m v')) 0"
    and "object_size w' = object_size w"
proof -
  let ?m = "size_m v"
  let ?rd = "length (heap w)"
  let ?ds = "replicate n (Slot False None) :: 'a slot list"
  obtain q w1 w2 v3 w3 where new: "operator_new (size_t (n * sizeof_T w)) w = Inr (q, w1)"
    and c: "construct_at (ptr_add q ?m) (Some e) w1 = Inr w2"
    and cp: "copy_to_ptr n q v w2 = Inr (v3, w3)"
    and mv: "move_element (size_m (v3\<lparr>size_m := size_m v3 + 1\<rparr>) - 1) p
               (v3\<lparr>size_m := size_m v3 + 1\<rparr>) w3 = Inr w'"
    and v': "v' = v3\<lparr>size_m := size_m v3 + 1\<rparr>"
    using ri by (auto simp: resize_and_insert_def Let_def split: sum.splits prod.splits)
  have q: "q = Ptr (Some ?rd) 0" and h1: "heap w1 = heap w @ [Some ?ds]"
    and nb: "n * sizeof_T w \<le> ptrdiff_max" and o1: "object_size w1 = object_size w"
    using operator_new_Inr[OF new nw] by simp_all
  have rd1: "reg w1 ?rd ?ds" using operator_new_reg(1)[OF new nw] .
  note fr1 = heap_append_frame[OF h1 inv o1]
  let ?ds2 = "?ds[?m := Slot True (Some e)]"
  have h2: "heap w2 = (heap w1)[?rd := Some ?ds2]"
    using construct_at_Inr(1)[OF c[unfolded q, simplified] rd1] n by simp
  have o2: "object_size w2 = object_size w1" using construct_at_size(1)[OF c] .
  have rd2: "reg w2 ?rd ?ds2"
    using reg_heap_update[OF h2 reg_length[OF rd1]] .
  note fr2 = heap_update_frame[OF h2 fr1(1) fr1(3) o2]
  let ?ds3 = "tab (length ?ds2)
       (\<lambda>j. if j < ?m then Slot True (stored w2 (ptr_add (data_m v) j)) else ?ds2 ! j)"
  have v3: "v3 = v\<lparr>data_m := Ptr (Some ?rd) 0, capacity_m := n\<rparr>"
    and rd3: "reg w3 ?rd ?ds3"
    and o3: "object_size w3 = object_size w2"
    using copy_to_ptr_Inr[OF cp[unfolded q] fr2(1) rd2 fr1(3)] n by simp_all
  have d': "data_m v' = Ptr (Some ?rd) 0" and s': "size_m v' = Suc ?m"
    and c': "capacity_m v' = n"
    using v' v3 by simp_all
  show "size_m v' = Suc (size_m v)" by fact
  show "data_m v' = Ptr (region (data_m v')) 0" using d' by simp
  have mv': "move_element (size_m v' - 1) p v' w3 = Inr w'" using mv v' by simp
  have st: "stored w2 (ptr_add (data_m v) j) = stored w (ptr_add (data_m v) j)" for j
    using fr2(2)[of j] fr1(2)[of j] by simp
  have old: "live (?ds3 ! j) \<and> bytes (?ds3 ! j) = stored w (ptr_add (data_m v) j) \<and>
             stored w (ptr_add (data_m v) j) \<noteq> None" if "j < ?m" for j
    using that n st wf_stored[OF inv that] by simp
  have new': "?ds3 ! ?m = Slot True (Some e)" using n by simp
  have rest: "\<not> live (?ds3 ! j)" if "?m < j" "j < length ?ds3" for j
    using that by simp
  have len: "Suc ?m \<le> length ?ds3" "length ?ds3 = capacity_m v'" using n c' by simp_all
  have o13: "object_size w3 = object_size w" using o1 o2 o3 by simp
  have bd: "capacity_m v' * sizeof_T w3 \<le> ptrdiff_max"
    using nb c' sizeof_T_cong[OF o13] by simp
  note rot = insert_rotate[OF mv' d' rd3 s' len bd old new']
  show "invariant v' w'"
    using rot(3) rest by blast
  show "elems v' w' =
         tab (Suc ?m) (\<lambda>j. if j < p then stored w (ptr_add (data_m v) j)
               else if j = p then Some e else stored w (ptr_add (data_m v) (j - 1)))"
    using rot(2) .
  show "object_size w' = object_size w" using rot(4) o13 by simp
qed

text \<open>
  In a well-formed container the doubled capacity and its size in bytes do not wrap around:
  the storage is a block of at most \<^verbatim>\<open>PTRDIFF_MAX\<close> bytes.
\<close>

lemma growth_no_wrap:
  assumes "well_formed v w"
  shows "size_t (capacity_m v * 2) = capacity_m v * 2"
    and "max 1 (capacity_m v * 2) * sizeof_T w \<le> size_max"
proof -
  have b: "capacity_m v * sizeof_T w \<le> ptrdiff_max" using wf_bound[OF assms] .
  have s: "0 < sizeof_T w" "sizeof_T w \<le> ptrdiff_max" using sizeof_T_bounds[of w] .
  have "capacity_m v * 1 \<le> capacity_m v * sizeof_T w"
    by (rule mult_le_mono2) (use s(1) in simp)
  with b have c: "capacity_m v \<le> ptrdiff_max" by linarith
  then show "size_t (capacity_m v * 2) = capacity_m v * 2"
    using ptrdiff_size_max by (intro size_t_id) simp
  show "max 1 (capacity_m v * 2) * sizeof_T w \<le> size_max"
  proof (cases "capacity_m v = 0")
    case True
    with s(2) ptrdiff_size_max show ?thesis by simp
  next
    case False
    then have "max 1 (capacity_m v * 2) = capacity_m v * 2" by simp
    moreover have "capacity_m v * 2 * sizeof_T w \<le> 2 * ptrdiff_max" using b by simp
    ultimately show ?thesis using ptrdiff_size_max by simp
  qed
qed

lemma insert_v_Inr:
  assumes i: "insert_v (ptr_add (begin_v v) p) e v w = Inr (it, v', w')"
    and inv: "well_formed v w" and p: "p \<le> size_m v"
  shows "well_formed v' w'" and "size_m v' = Suc (size_m v)"
    and "elems v' w' = take p (elems v w) @ Some e # drop p (elems v w)"
    and "it = ptr_add (begin_v v') p"
    and "invariant v w \<Longrightarrow> invariant v' w'"
    and "object_size w' = object_size w"
proof -
  let ?m = "size_m v"
  let ?xs = "\<lambda>j. stored w (ptr_add (data_m v) j)"
  have pd: "ptr_diff (ptr_add (begin_v v) p) (begin_v v) = p"
    by (simp add: ptr_diff_def ptr_add_def)
  have main: "well_formed v' w' \<and> size_m v' = Suc ?m \<and>
        elems v' w' = tab (Suc ?m) (\<lambda>j. if j < p then ?xs j else if j = p then Some e else ?xs (j - 1)) \<and>
        it = ptr_add (begin_v v') p \<and> (invariant v w \<longrightarrow> invariant v' w') \<and>
        object_size w' = object_size w"
  proof (cases "size_m v = capacity_m v")
    case True
    note g = growth_no_wrap[OF inv]
    have ri: "resize_and_insert (max 1 (capacity_m v * 2)) p e v w = Inr (v', w')"
      and it: "it = ptr_add (begin_v v') p"
      using i True unfolding insert_v_def pd Let_def g(1) by (auto split: sum.splits)
    have n: "size_m v < max 1 (capacity_m v * 2)" using True by simp
    note r = resize_and_insert_Inr(1,2,3,5)[OF ri inv n g(2)]
    from r invariant_wf[OF r(2)] it show ?thesis by simp
  next
    case False
    then obtain w1 w2 where c: "construct_at (ptr_add (data_m v) ?m) (Some e) w = Inr w1"
      and mv: "move_element ?m p (v\<lparr>size_m := ?m + 1\<rparr>) w1 = Inr w2"
      and v': "v' = v\<lparr>size_m := ?m + 1\<rparr>" and w': "w' = w2"
      and it: "it = ptr_add (begin_v v') p"
      using i unfolding insert_v_def pd Let_def by (auto split: sum.splits)
    from insert_room[OF c mv inv False] v' w' it show ?thesis by simp
  qed
  then show "well_formed v' w'" "size_m v' = Suc ?m" "it = ptr_add (begin_v v') p"
    and "invariant v w \<Longrightarrow> invariant v' w'" and "object_size w' = object_size w" by simp_all
  have el: "elems v' w' = tab (Suc ?m) (\<lambda>j. if j < p then ?xs j else if j = p then Some e else ?xs (j - 1))"
    using main by simp
  show "elems v' w' = take p (elems v w) @ Some e # drop p (elems v w)"
    using el insert_tab[OF p, of ?xs "Some e"] by (simp add: elems_tab[of v w])
qed

section \<open>Copy construction and assignment\<close>


lemma elems_frame:
  "(\<And>j. stored w1 (ptr_add (data_m v) j) = stored w (ptr_add (data_m v) j)) \<Longrightarrow>
   elems v w1 = elems v w"
  by (simp add: elems_def)

lemma slots_of_heap_eq: "heap w1 = heap w \<Longrightarrow> slots_of w1 p = slots_of w p"
  unfolding slots_of_def by (simp cong: option.case_cong if_cong)

lemma allocated_heap_eq: "heap w1 = heap w \<Longrightarrow> allocated w1 p = allocated w p"
  unfolding allocated_def by (simp cong: option.case_cong if_cong)

lemma slot_at_heap_eq: "heap w1 = heap w \<Longrightarrow> slot_at w1 p = slot_at w p"
  unfolding slot_at_def by (simp cong: option.case_cong if_cong)

lemma wf_heap_eq:
  assumes "heap w1 = heap w" and "object_size w1 = object_size w"
  shows "well_formed v w1 = well_formed v w"
  using wf_cong[OF slots_of_heap_eq[OF assms(1)] allocated_heap_eq[OF assms(1)] assms(2)] .

lemma elems_heap_eq:
  assumes "heap w1 = heap w"
  shows "elems v w1 = elems v w"
  unfolding elems_def stored_def slot_at_heap_eq[OF assms] ..

lemma invariant_default [simp]: "invariant vector_default w"
  by (simp add: invariant_def well_formed_def vector_default_def nullptr_def slots_of_def)

lemma vector_dtor_default [simp]: "vector_dtor vector_default w = w"
  by (simp add: vector_dtor_def vector_default_def nullptr_def)

lemma vector_dtor_size [simp]: "object_size (vector_dtor v w) = object_size w"
  by (simp add: vector_dtor_def)

text \<open>The size in bytes of a copy of the elements does not wrap around.\<close>

lemma copy_no_wrap:
  assumes "well_formed v w"
  shows "size_m v * sizeof_T w \<le> size_max"
proof -
  have "size_m v \<le> capacity_m v" using assms by (simp add: well_formed_def)
  then have "size_m v * sizeof_T w \<le> capacity_m v * sizeof_T w" by (rule mult_le_mono1)
  with wf_bound[OF assms] ptrdiff_size_max show ?thesis by linarith
qed

text \<open>The copy constructor, on success and on failure.\<close>

lemma vector_copy_Inr:
  assumes c: "vector_copy v w = Inr (c, w1)" and inv: "well_formed v w"
  shows "invariant c w1" and "elems c w1 = elems v w" and "size_m c = size_m v"
    and "well_formed v w1" and "elems v w1 = elems v w"
    and "region (data_m c) = None \<or> region (data_m c) \<noteq> region (data_m v)"
    and "object_size w1 = object_size w"
proof -
  note nw = copy_no_wrap[OF inv]
  have "invariant c w1 \<and> elems c w1 = elems v w \<and> size_m c = size_m v \<and>
        well_formed v w1 \<and> elems v w1 = elems v w \<and>
        (region (data_m c) = None \<or> region (data_m c) \<noteq> region (data_m v)) \<and>
        object_size w1 = object_size w"
  proof (cases "size_m v = 0")
    case True
    then have c0: "c = vector_default" "w1 = w"
      using c by (simp_all add: vector_copy_def size_v_def)
    have 1: "invariant c w1" unfolding c0 by (rule invariant_default)
    have 2: "elems c w1 = []" "elems v w = []" "size_m c = size_m v"
      using True by (simp_all add: elems_empty c0 vector_default_def)
    have 3: "region (data_m c) = None" by (simp add: c0 vector_default_def nullptr_def)
    from 1 2 3 inv c0 show ?thesis by simp
  next
    case False
    let ?n = "size_m v"
    let ?rd = "length (heap w)"
    let ?ds = "replicate ?n (Slot False None) :: 'a slot list"
    obtain q w0 where new: "operator_new (size_t (?n * sizeof_T w)) w = Inr (q, w0)"
      and cc: "copy_and_construct q (data_m v) ?n w0 = Inr w1"
      and cv: "c = vector_default\<lparr>data_m := q, capacity_m := ?n, size_m := ?n\<rparr>"
      using c False
      by (auto simp: vector_copy_def size_v_def data_v_def Let_def split: sum.splits prod.splits)
    have q: "q = Ptr (Some ?rd) 0" and h0: "heap w0 = heap w @ [Some ?ds]"
      and nb: "?n * sizeof_T w \<le> ptrdiff_max" and o0: "object_size w0 = object_size w"
      using operator_new_Inr[OF new nw] by simp_all
    have o1: "object_size w1 = object_size w0" using copy_and_construct_size(1)[OF cc] .
    have rd0: "reg w0 ?rd ?ds" using operator_new_reg(1)[OF new nw] .
    note fr0 = heap_append_frame[OF h0 inv o0]
    have "region (data_m v) \<noteq> None"
    proof
      assume "region (data_m v) = None"
      from wf_null[OF inv this] False show False by simp
    qed
    then obtain rs where Some: "region (data_m v) = Some rs" by auto
    from wf_reg[OF fr0(1) Some] obtain ss where
      d: "data_m v = Ptr (Some rs) 0" and rs: "reg w0 rs ss" and sz: "size_m v \<le> length ss"
      and bs: "\<forall>j<size_m v. live (ss ! j) \<and> bytes (ss ! j) \<noteq> None"
      by blast
    have ne: "?rd \<noteq> rs" using fr0(3) Some by simp
    have cl: "construct_loop (Ptr (Some ?rd) 0) (Ptr (Some rs) 0) ?n 0 w0 = Inr w1"
      using cc q d by (auto simp: copy_and_construct_def split: sum.splits prod.splits)
    let ?ds1 = "tab (length ?ds) (\<lambda>j. if 0 \<le> j \<and> j < ?n then Slot True (obj (ss ! j)) else ?ds ! j)"
    have h1: "heap w1 = (heap w0)[?rd := Some ?ds1]"
      using construct_loop_Inr[OF cl rd0 rs ne _ sz] by simp
    have rd1: "reg w1 ?rd ?ds1"
      using reg_heap_update[OF h1 reg_length[OF rd0]] .
    note fr1 = heap_update_frame[OF h1 fr0(1) fr0(3) o1]
    have dc: "data_m c = Ptr (Some ?rd) 0" and sc: "size_m c = ?n" and cc': "capacity_m c = ?n"
      using cv q by simp_all
    have o: "object_size w1 = object_size w" using o0 o1 by simp
    have 1: "invariant c w1"
    proof (rule invariantI_reg[OF dc rd1])
      show "length ?ds1 = capacity_m c" using cc' by simp
      show "0 < capacity_m c" using cc' False by simp
      show "size_m c \<le> capacity_m c" using cc' sc by simp
      show "capacity_m c * sizeof_T w1 \<le> ptrdiff_max"
        using cc' nb sizeof_T_cong[OF o] by simp
    next
      fix j assume "j < size_m c"
      then show "live (?ds1 ! j) \<and> bytes (?ds1 ! j) \<noteq> None" using sc bs by (simp add: obj_live)
    next
      fix j assume "size_m c \<le> j" "j < length ?ds1"
      then show "\<not> live (?ds1 ! j)" using sc by simp
    qed
    have e0: "elems v w0 = elems v w" using fr0(2) by (rule elems_frame)
    have e1: "elems v w1 = elems v w0" using fr1(2) by (rule elems_frame)
    have "elems c w1 = tab ?n (\<lambda>j. obj (?ds1 ! j))"
      using elems_reg[OF dc rd1] sc by simp
    also have "\<dots> = tab ?n (\<lambda>j. obj (ss ! j))" by (intro tab_cong) simp
    also have "\<dots> = elems v w0" using elems_reg[OF d rs sz] by simp
    finally have 2: "elems c w1 = elems v w" using e0 by simp
    from 1 2 sc fr1(1) e0 e1 dc Some ne o show ?thesis by auto
  qed
  then show "invariant c w1" and "elems c w1 = elems v w" and "size_m c = size_m v"
    and "well_formed v w1" and "elems v w1 = elems v w"
    and "region (data_m c) = None \<or> region (data_m c) \<noteq> region (data_m v)"
    and "object_size w1 = object_size w"
    by blast+
qed

lemma copy_and_construct_Inl:
  assumes cc: "copy_and_construct (Ptr (Some rd) 0) (Ptr (Some rs) 0) n w = Inl (e, w1)"
    and rd: "reg w rd ds" and rs: "reg w rs ss" and ne: "rd \<noteq> rs"
    and n: "n \<le> length ds" "n \<le> length ss"
  shows "e = ElementConstructionFailure"
    and "\<exists>k<n. heap w1 = (heap w)[rd := Some (tab (length ds)
            (\<lambda>j. if j < k then Slot False None else ds ! j))]"
proof -
  obtain k w0 where cl: "construct_loop (Ptr (Some rd) 0) (Ptr (Some rs) 0) n 0 w = Inl (e, k, w0)"
    and w1: "w1 = destroy_all (Ptr (Some rd) 0) k w0"
    using cc by (auto simp: copy_and_construct_def split: sum.splits prod.splits)
  let ?ds0 = "tab (length ds) (\<lambda>j. if 0 \<le> j \<and> j < k then Slot True (obj (ss ! j)) else ds ! j)"
  from construct_loop_Inl[OF cl rd rs ne n]
  have k: "k < n" and e: "e = ElementConstructionFailure"
    and h0: "heap w0 = (heap w)[rd := Some ?ds0]"
    by simp_all
  show "e = ElementConstructionFailure" by fact
  have r0: "reg w0 rd ?ds0"
    using reg_heap_update[OF h0 reg_length[OF rd]] .
  have "heap w1 = (heap w0)[rd := Some (tab (length ?ds0)
          (\<lambda>j. if j < k then Slot False None else ?ds0 ! j))]"
    unfolding w1 using destroy_all_heap[OF r0, of k] k n by simp
  moreover have "tab (length ?ds0) (\<lambda>j. if j < k then Slot False None else ?ds0 ! j)
      = tab (length ds) (\<lambda>j. if j < k then Slot False None else ds ! j)"
    by (simp, intro tab_cong) simp
  ultimately have "heap w1 = (heap w)[rd := Some (tab (length ds)
            (\<lambda>j. if j < k then Slot False None else ds ! j))]"
    using h0 by simp
  with k show "\<exists>k<n. heap w1 = (heap w)[rd := Some (tab (length ds)
            (\<lambda>j. if j < k then Slot False None else ds ! j))]"
    by blast
qed

lemma vector_copy_Inl:
  assumes c: "vector_copy v w = Inl (e, w1)" and inv: "well_formed v w"
  shows "well_formed v w1" and "elems v w1 = elems v w"
    and "slots_of w1 (data_m v) = slots_of w (data_m v)"
proof -
  note nw = copy_no_wrap[OF inv]
  have "well_formed v w1 \<and> elems v w1 = elems v w \<and>
        slots_of w1 (data_m v) = slots_of w (data_m v)"
  proof (cases "size_m v = 0")
    case True
    then have "vector_copy v w = Inr (vector_default, w)"
      by (simp add: vector_copy_def size_v_def)
    with c show ?thesis by simp
  next
    case False
    let ?n = "size_m v"
    let ?rd = "length (heap w)"
    let ?ds = "replicate ?n (Slot False None) :: 'a slot list"
    show ?thesis
    proof (cases "operator_new (size_t (?n * sizeof_T w)) w")
      case (Inl x)
      then have "operator_new (size_t (?n * sizeof_T w)) w = Inl (e, w1)"
        using c False by (auto simp: vector_copy_def size_v_def Let_def split: prod.splits)
      from operator_new_Inl(2,3)[OF this]
      have h: "heap w1 = heap w" and o: "object_size w1 = object_size w" .
      show ?thesis
        using wf_heap_eq[OF h o, of v] elems_heap_eq[OF h, of v]
          slots_of_heap_eq[OF h, of "data_m v"] inv by simp
    next
      case (Inr y)
      then obtain q w0 where new: "operator_new (size_t (?n * sizeof_T w)) w = Inr (q, w0)"
        by (cases y) simp
      then have cc: "copy_and_construct q (data_m v) ?n w0 = Inl (e, w1)"
        using c False
        by (auto simp: vector_copy_def size_v_def data_v_def Let_def split: sum.splits prod.splits)
      have q: "q = Ptr (Some ?rd) 0" and h0: "heap w0 = heap w @ [Some ?ds]"
        and o0: "object_size w0 = object_size w"
        using operator_new_Inr[OF new nw] by simp_all
      have o1: "object_size w1 = object_size w0" using copy_and_construct_size(2)[OF cc] .
      have rd0: "reg w0 ?rd ?ds" using operator_new_reg(1)[OF new nw] .
      note fr0 = heap_append_frame[OF h0 inv o0]
      have "region (data_m v) \<noteq> None"
      proof
        assume "region (data_m v) = None"
        from wf_null[OF inv this] False show False by simp
      qed
      then obtain rs where Some: "region (data_m v) = Some rs" by auto
      from wf_reg[OF fr0(1) Some] obtain ss where
        d: "data_m v = Ptr (Some rs) 0" and rs: "reg w0 rs ss" and sz: "size_m v \<le> length ss"
        by blast
      have ne: "?rd \<noteq> rs" using fr0(3) Some by simp
      from copy_and_construct_Inl(2)[OF cc[unfolded q d] rd0 rs ne _ sz]
      obtain x where h1: "heap w1 = (heap w0)[?rd := x]" by auto
      note fr1 = heap_update_frame[OF h1 fr0(1) fr0(3) o1]
      have e0: "elems v w0 = elems v w" using fr0(2) by (rule elems_frame)
      have e1: "elems v w1 = elems v w0" using fr1(2) by (rule elems_frame)
      from fr1(1) e0 e1 fr0(4) fr1(3) show ?thesis by simp
    qed
  qed
  then show "well_formed v w1" and "elems v w1 = elems v w"
    and "slots_of w1 (data_m v) = slots_of w (data_m v)" by simp_all
qed

text \<open>Destroying one container leaves another one, with its own storage, as it was.\<close>

lemma vector_dtor_frame:
  assumes iv: "well_formed v w" and ic: "well_formed c w"
    and ne: "region (data_m c) = None \<or> region (data_m c) \<noteq> region (data_m v)"
  shows "well_formed c (vector_dtor v w)" and "elems c (vector_dtor v w) = elems c w"
    and "invariant c (vector_dtor v w) = invariant c w"
proof -
  have "well_formed c (vector_dtor v w) \<and> elems c (vector_dtor v w) = elems c w \<and>
        invariant c (vector_dtor v w) = invariant c w"
  proof (cases "region (data_m v)")
    case None
    from wf_null[OF iv None] have "vector_dtor v w = w"
      by (simp add: vector_dtor_def)
    with ic show ?thesis by simp
  next
    case (Some rs)
    from wf_reg[OF iv Some] obtain ss where
      d: "data_m v = Ptr (Some rs) 0" and rs: "reg w rs ss" and sz: "size_m v \<le> length ss"
      by blast
    let ?w1 = "destroy_all (Ptr (Some rs) 0) (size_m v) w"
    let ?ss1 = "tab (length ss) (\<lambda>j. if j < size_m v then Slot False None else ss ! j)"
    have h1: "heap ?w1 = (heap w)[rs := Some ?ss1]"
      using destroy_all_heap[OF rs sz] .
    have r1: "reg ?w1 rs ?ss1"
      using reg_heap_update[OF h1 reg_length[OF rs]] .
    have "heap (vector_dtor v w) = (heap ?w1)[rs := None]"
      using heap_operator_delete[OF r1] d by (simp add: vector_dtor_def)
    then have h: "heap (vector_dtor v w) = (heap w)[rs := None]" using h1 by simp
    have n: "region (data_m c) \<noteq> Some rs" using ne Some by auto
    note fr = heap_update_frame[OF h ic n vector_dtor_size]
    have "elems c (vector_dtor v w) = elems c w" using fr(2) by (rule elems_frame)
    with fr(1) fr(4) show ?thesis by simp
  qed
  then show "well_formed c (vector_dtor v w)" and "elems c (vector_dtor v w) = elems c w"
    and "invariant c (vector_dtor v w) = invariant c w"
    by simp_all
qed

text \<open>Self-assignment, on success and on failure.\<close>

lemma assign_v_self_Inr:
  assumes a: "assign_v v v w = Inr (v', w')" and inv: "well_formed v w"
  shows "invariant v' w'" and "elems v' w' = elems v w" and "size_m v' = size_m v"
proof -
  obtain c w1 where vc: "vector_copy v w = Inr (c, w1)"
    and v': "v' = v\<lparr>data_m := data_m c, size_m := size_m c, capacity_m := capacity_m c\<rparr>"
    and w': "w' = vector_dtor (c\<lparr>data_m := data_m v, size_m := size_m v,
                                  capacity_m := capacity_m v\<rparr>) w1"
    using a by (auto simp: assign_v_def swap_v_def split: sum.splits prod.splits)
  have vc': "v' = c" using v' by simp
  have old: "c\<lparr>data_m := data_m v, size_m := size_m v, capacity_m := capacity_m v\<rparr> = v"
    by simp
  have w'': "w' = vector_dtor v w1" using w' old by simp
  note cp = vector_copy_Inr[OF vc inv]
  note fr = vector_dtor_frame[OF cp(4) invariant_wf[OF cp(1)] cp(6)]
  show "invariant v' w'" using fr(3) cp(1) vc' w'' by simp
  show "elems v' w' = elems v w" using fr(2) cp(2) vc' w'' by simp
  show "size_m v' = size_m v" using cp(3) vc' by simp
qed

lemma assign_v_self_Inl:
  assumes a: "assign_v v v w = Inl (e, v', w')" and inv: "well_formed v w"
  shows "v' = v" and "well_formed v' w'" and "elems v' w' = elems v w"
proof -
  have vc: "vector_copy v w = Inl (e, w')" and v': "v' = v"
    using a by (auto simp: assign_v_def split: sum.splits prod.splits)
  show "v' = v" by fact
  show "well_formed v' w'" using vector_copy_Inl(1)[OF vc inv] v' by simp
  show "elems v' w' = elems v w" using vector_copy_Inl(2)[OF vc inv] v' by simp
qed

text \<open>What a failed copy construction leaves in the heap.\<close>

lemma vector_copy_Inl_leak:
  assumes c: "vector_copy v w = Inl (ElementConstructionFailure, w1)" and inv: "well_formed v w"
  shows "reg w1 (length (heap w))
           (slots_of w1 (Ptr (Some (length (heap w))) 0))"
    and "length (slots_of w1 (Ptr (Some (length (heap w))) 0)) = size_m v"
    and "\<forall>j<size_m v. \<not> live (slots_of w1 (Ptr (Some (length (heap w))) 0) ! j)"
    and "0 < size_m v"
proof -
  let ?n = "size_m v"
  let ?rd = "length (heap w)"
  let ?ds = "replicate ?n (Slot False None) :: 'a slot list"
  have n0: "?n \<noteq> 0"
  proof
    assume "?n = 0"
    then have "vector_copy v w = Inr (vector_default, w)"
      by (simp add: vector_copy_def size_v_def)
    with c show False by simp
  qed
  show "0 < size_m v" using n0 by simp
  note nw = copy_no_wrap[OF inv]
  obtain q w0 where new: "operator_new (size_t (?n * sizeof_T w)) w = Inr (q, w0)"
    and cc: "copy_and_construct q (data_m v) ?n w0 = Inl (ElementConstructionFailure, w1)"
  proof (cases "operator_new (size_t (?n * sizeof_T w)) w")
    case (Inl x)
    then obtain e w0 where x: "operator_new (size_t (?n * sizeof_T w)) w = Inl (e, w0)"
      by (cases x) simp
    from operator_new_Inl(1)[OF x] x c n0 have False
      by (simp add: vector_copy_def size_v_def)
    then show ?thesis ..
  next
    case (Inr y)
    then obtain q w0 where y: "operator_new (size_t (?n * sizeof_T w)) w = Inr (q, w0)"
      by (cases y) simp
    with c n0 have "copy_and_construct q (data_m v) ?n w0 = Inl (ElementConstructionFailure, w1)"
      by (auto simp: vector_copy_def size_v_def data_v_def split: sum.splits prod.splits)
    with y that show ?thesis by blast
  qed
  have q: "q = Ptr (Some ?rd) 0" and h0: "heap w0 = heap w @ [Some ?ds]"
    and o0: "object_size w0 = object_size w"
    using operator_new_Inr[OF new nw] by simp_all
  have rd0: "reg w0 ?rd ?ds" using operator_new_reg(1)[OF new nw] .
  note fr0 = heap_append_frame[OF h0 inv o0]
  have "region (data_m v) \<noteq> None"
  proof
    assume "region (data_m v) = None"
    from wf_null[OF inv this] n0 show False by simp
  qed
  then obtain rs where Some: "region (data_m v) = Some rs" by auto
  from wf_reg[OF fr0(1) Some] obtain ss where
    d: "data_m v = Ptr (Some rs) 0" and rs: "reg w0 rs ss" and sz: "size_m v \<le> length ss"
    by blast
  have ne: "?rd \<noteq> rs" using fr0(3) Some by simp
  from copy_and_construct_Inl(2)[OF cc[unfolded q d] rd0 rs ne _ sz]
  obtain k where k: "k < ?n"
    and h1: "heap w1 = (heap w0)[?rd := Some (tab (length ?ds)
            (\<lambda>j. if j < k then Slot False None else ?ds ! j))]"
    by auto
  let ?ds1 = "tab (length ?ds) (\<lambda>j. if j < k then Slot False None else ?ds ! j)"
  have r1: "reg w1 ?rd ?ds1"
    using reg_heap_update[OF h1 reg_length[OF rd0]] .
  have s1: "slots_of w1 (Ptr (Some ?rd) 0) = ?ds1"
    using slots_of_reg[OF r1] .
  show "reg w1 ?rd (slots_of w1 (Ptr (Some ?rd) 0))" using r1 s1 by simp
  show "length (slots_of w1 (Ptr (Some ?rd) 0)) = ?n" using s1 by simp
  show "\<forall>j<?n. \<not> live (slots_of w1 (Ptr (Some ?rd) 0) ! j)"
    unfolding s1 by simp
qed


section \<open>Sequences of operations\<close>

lemma ptr_add_add: "ptr_add (ptr_add q i) k = ptr_add q (i + k)"
  by (simp add: ptr_add_def)

lemma insert_then_erase:
  assumes i: "insert_v (ptr_add (begin_v v) p) e v w = Inr (it, v1, w1)"
    and er: "erase_pos it v1 w1 = Inr (it2, v2, w2)"
    and inv: "well_formed v w" and p: "p \<le> size_m v"
  shows "elems v2 w2 = take (Suc p) (elems v w) @ replicate (size_m v - Suc p) None"
    and "size_m v2 = size_m v"
proof -
  note ins = insert_v_Inr[OF i inv p]
  have er': "erase (ptr_add (begin_v v1) p) (ptr_add (begin_v v1) (p + 1)) v1 w1 = Inr (it2, v2, w2)"
    using er ins(4) by (simp add: erase_pos_def ptr_add_add)
  have ab: "p \<le> p + 1" "p + 1 \<le> size_m v1" using p ins(2) by simp_all
  note era = erase_Inr[OF er' ins(1) ab]
  show "size_m v2 = size_m v" using era(1) ins(2) by simp
  define ys where "ys = take p (elems v w) @ Some e # drop p (elems v w)"
  have "take p ys @ drop (p + 1) ys = take p (elems v w) @ drop p (elems v w)"
    using p by (simp add: ys_def min_absorb2)
  then have rt: "take p ys @ drop (p + 1) ys = elems v w" by simp
  have "elems v2 w2 = take (p + 1) (take p ys @ drop (p + 1) ys) @
                      replicate (size_m v1 - (p + 1 - p) - (p + 1)) None"
    using era(3) ins(3) by (simp only: ys_def)
  also have "\<dots> = take (Suc p) (elems v w) @ replicate (size_m v - Suc p) None"
    unfolding rt using ins(2) by simp
  finally show "elems v2 w2 = take (Suc p) (elems v w) @ replicate (size_m v - Suc p) None" .
qed

lemma push_back_Inr:
  assumes pb: "push_back e v w = Inr (v', w')" and inv: "well_formed v w"
  shows "well_formed v' w'" and "elems v' w' = elems v w @ [Some e]" and "size_m v' = Suc (size_m v)"
proof -
  obtain it where i: "insert_v (ptr_add (begin_v v) (size_m v)) e v w = Inr (it, v', w')"
    using pb by (auto simp: push_back_def end_v_def begin_v_def split: sum.splits prod.splits)
  note ins = insert_v_Inr[OF i inv le_refl]
  show "well_formed v' w'" "size_m v' = Suc (size_m v)" using ins by simp_all
  show "elems v' w' = elems v w @ [Some e]" using ins(3) by simp
qed

lemma push_all_Inr:
  "push_all xs v w = Inr (v', w') \<Longrightarrow> well_formed v w \<Longrightarrow>
   well_formed v' w' \<and> elems v' w' = elems v w @ map Some xs \<and> size_m v' = size_m v + length xs"
proof (induction xs arbitrary: v w)
  case Nil
  then show ?case by simp
next
  case (Cons x xs)
  then obtain v1 w1 where pb: "push_back x v w = Inr (v1, w1)"
    and rest: "push_all xs v1 w1 = Inr (v', w')"
    by (auto split: sum.splits prod.splits)
  note one = push_back_Inr[OF pb Cons.prems(2)]
  from Cons.IH[OF rest one(1)] one show ?case by simp
qed

text \<open>A run of \<open>push_back\<close> calls never leaves the invariant.\<close>

lemma push_back_invariant:
  assumes pb: "push_back e v w = Inr (v', w')" and inv: "invariant v w"
  shows "invariant v' w'"
proof -
  obtain it where i: "insert_v (ptr_add (begin_v v) (size_m v)) e v w = Inr (it, v', w')"
    using pb by (auto simp: push_back_def end_v_def begin_v_def split: sum.splits prod.splits)
  from insert_v_Inr(5)[OF i invariant_wf[OF inv] le_refl inv] show ?thesis .
qed

lemma push_all_invariant:
  "push_all xs v w = Inr (v', w') \<Longrightarrow> invariant v w \<Longrightarrow> invariant v' w'"
proof (induction xs arbitrary: v w)
  case Nil
  then show ?case by simp
next
  case (Cons x xs)
  then obtain v1 w1 where pb: "push_back x v w = Inr (v1, w1)"
    and rest: "push_all xs v1 w1 = Inr (v', w')"
    by (auto split: sum.splits prod.splits)
  from Cons.IH[OF rest push_back_invariant[OF pb Cons.prems(2)]] show ?case .
qed



section \<open>The claims\<close>

text \<open>
  The theorems start from a well-formed container, whose elements are live objects, and
  from a container that satisfies the whole invariant where the slots behind the length
  matter.  An element of \<open>elems\<close> is \<open>None\<close> where no object lives.
\<close>

text \<open>
  C1.  The claim is the strong guarantee of the relocation: when an element copy throws, the
  new region is freed and the container keeps its storage, elements, size and capacity.
  The code does otherwise.  Whenever \<open>reserve(n)\<close> throws the error of an element copy, the
  container held at least one element and had a capacity below \<open>n\<close> before the call, and is
  empty with capacity \<open>n\<close> after it; whenever \<open>shrink_to_fit()\<close> throws it, the container
  held at least one element before and is empty afterwards.
\<close>

theorem relocation_failure_empties_container:
  "(reserve n v w = Inl (ElementConstructionFailure, v', w') \<longrightarrow>
      0 < size_v v \<and> size_v v' = 0 \<and> capacity v < n \<and> capacity v' = n) \<and>
   (shrink_to_fit v w = Inl (ElementConstructionFailure, v', w') \<longrightarrow>
      0 < size_v v \<and> size_v v' = 0)"
proof (intro conjI impI)
  assume a: "reserve n v w = Inl (ElementConstructionFailure, v', w')"
  then have c: "capacity_m v < n" and r: "resize n v w = Inl (ElementConstructionFailure, v', w')"
    by (auto simp: reserve_def split: if_splits)
  from resize_Inl[OF r] c
  show "0 < size_v v" "size_v v' = 0" "capacity v < n" "capacity v' = n"
    by (simp_all add: size_v_def capacity_def)
next
  assume a: "shrink_to_fit v w = Inl (ElementConstructionFailure, v', w')"
  then have r: "resize (size_m v) v w = Inl (ElementConstructionFailure, v', w')"
    by (auto simp: shrink_to_fit_def split: if_splits)
  from resize_Inl[OF r] show "0 < size_v v" "size_v v' = 0"
    by (simp_all add: size_v_def)
qed

text \<open>
  At the container \<open>[1, 2, 3]\<close> with capacity 4 whose second element copy throws: after the
  failed \<open>reserve(6)\<close> the container is empty, has capacity 6 and owns the new region; its
  old storage is freed and its elements are destructed.  The same happens in \<open>push_back(3)\<close>
  on the full container \<open>[1, 2]\<close>.
\<close>

theorem relocation_failure_empties_container_witness:
  "reserve 6 ex_v (ex_w\<lparr>elem_plan := [False, True]\<rparr>) =
     Inl (ElementConstructionFailure,
          \<lparr>data_m = Ptr (Some 1) 0, size_m = 0, capacity_m = 6\<rparr>,
          world_of [None, Some [Slot False None, Slot False None, Slot False None,
                                Slot False None, Slot False None, Slot False None]]) \<and>
   shrink_to_fit ex_v (ex_w\<lparr>elem_plan := [False, True]\<rparr>) =
     Inl (ElementConstructionFailure,
          \<lparr>data_m = Ptr (Some 1) 0, size_m = 0, capacity_m = 3\<rparr>,
          world_of [None, Some [Slot False None, Slot False None, Slot False None]]) \<and>
   push_back 3 \<lparr>data_m = Ptr (Some 0) 0, size_m = 2, capacity_m = 2\<rparr>
     ((world_of [Some [Slot True (Some (1::nat)), Slot True (Some 2)]])
        \<lparr>elem_plan := [False, False, True]\<rparr>) =
     Inl (ElementConstructionFailure,
          \<lparr>data_m = Ptr (Some 1) 0, size_m = 0, capacity_m = 4\<rparr>,
          world_of [None, Some [Slot False None, Slot False None, Slot False None,
                                Slot False None]]) \<and>
   0 < size_v ex_v \<and> size_v \<lparr>data_m = Ptr (Some 1) 0, size_m = 0, capacity_m = 6\<rparr> = 0 \<and>
   capacity ex_v < 6 \<and> capacity \<lparr>data_m = Ptr (Some 1) 0, size_m = 0, capacity_m = 6\<rparr> = 6 \<and>
   size_v \<lparr>data_m = Ptr (Some 1) 0, size_m = 0, capacity_m = 3\<rparr> = 0"
proof -
  let ?w = "ex_w\<lparr>elem_plan := [False, True]\<rparr>"
  let ?v6 = "\<lparr>data_m = Ptr (Some 1) 0, size_m = 0, capacity_m = 6\<rparr>"
  let ?w6 = "world_of [None, Some [Slot False None, Slot False None, Slot False None,
                                Slot False None, Slot False None, Slot False None]] :: nat world"
  let ?v3 = "\<lparr>data_m = Ptr (Some 1) 0, size_m = 0, capacity_m = 3\<rparr>"
  let ?w3 = "world_of [None, Some [Slot False None, Slot False None, Slot False None]] :: nat world"
  have r: "reserve 6 ex_v ?w = Inl (ElementConstructionFailure, ?v6, ?w6)" by code_simp
  have s: "shrink_to_fit ex_v ?w = Inl (ElementConstructionFailure, ?v3, ?w3)" by code_simp
  have p: "push_back 3 \<lparr>data_m = Ptr (Some 0) 0, size_m = 2, capacity_m = 2\<rparr>
     ((world_of [Some [Slot True (Some (1::nat)), Slot True (Some 2)]])
        \<lparr>elem_plan := [False, False, True]\<rparr>) =
     Inl (ElementConstructionFailure,
          \<lparr>data_m = Ptr (Some 1) 0, size_m = 0, capacity_m = 4\<rparr>,
          world_of [None, Some [Slot False None, Slot False None, Slot False None,
                                Slot False None]])" by code_simp
  from relocation_failure_empties_container[of 6 ex_v ?w ?v6 ?w6] r
  have 1: "0 < size_v ex_v \<and> size_v ?v6 = 0 \<and> capacity ex_v < 6 \<and> capacity ?v6 = 6"
    by blast
  from relocation_failure_empties_container[of _ ex_v ?w ?v3 ?w3] s
  have 2: "size_v ?v3 = 0" by blast
  from r s p 1 2 show ?thesis by blast
qed

text \<open>
  C2.  The claim is that a copy construction whose element copy throws destructs what it has
  constructed, frees the new storage and leaves the source alone.  The code does all of this
  but one: the region it has allocated, which did not exist before the call, is still
  allocated after it.  No slot of that region holds a live object, and the storage of the
  source is as it was.
\<close>

theorem copy_failure_leaks_storage:
  "well_formed v w \<Longrightarrow> vector_copy v w = Inl (ElementConstructionFailure, w') \<Longrightarrow>
   \<not> allocated w (Ptr (Some (length (heap w))) 0) \<and>
   allocated w' (Ptr (Some (length (heap w))) 0) \<and>
   map live (slots_of w' (Ptr (Some (length (heap w))) 0)) = replicate (size_v v) False \<and>
   slots_of w' (data_v v) = slots_of w (data_v v)"
proof -
  assume inv: "well_formed v w" and c: "vector_copy v w = Inl (ElementConstructionFailure, w')"
  let ?p = "Ptr (Some (length (heap w))) 0"
  note lk = vector_copy_Inl_leak[OF c inv]
  have 1: "\<not> allocated w ?p" by (simp add: allocated_def)
  have 2: "allocated w' ?p" using lk(1) by (simp add: allocated_def reg_def)
  have 3: "map live (slots_of w' ?p) = replicate (size_v v) False"
    using lk(2,3) by (intro nth_equalityI) (simp_all add: size_v_def)
  from 1 2 3 vector_copy_Inl(3)[OF c inv] show ?thesis by (simp add: data_v_def)
qed

theorem copy_failure_leaks_storage_witness:
  "well_formed ex_v (ex_w\<lparr>elem_plan := [False, True]\<rparr>) \<and>
   vector_copy ex_v (ex_w\<lparr>elem_plan := [False, True]\<rparr>) =
     Inl (ElementConstructionFailure,
          world_of [Some [Slot True (Some 1), Slot True (Some 2), Slot True (Some 3),
                          Slot False None],
                    Some [Slot False None, Slot False None, Slot False None]]) \<and>
   \<not> allocated (ex_w\<lparr>elem_plan := [False, True]\<rparr>) (Ptr (Some 1) 0) \<and>
   allocated (world_of [Some [Slot True (Some (1::nat)), Slot True (Some 2), Slot True (Some 3),
                          Slot False None],
                    Some [Slot False None, Slot False None, Slot False None]])
     (Ptr (Some 1) 0)"
proof -
  let ?w = "ex_w\<lparr>elem_plan := [False, True]\<rparr>"
  let ?w' = "world_of [Some [Slot True (Some (1::nat)), Slot True (Some 2), Slot True (Some 3),
                          Slot False None],
                    Some [Slot False None, Slot False None, Slot False None]]"
  have i: "well_formed ex_v ?w" by code_simp
  have c: "vector_copy ex_v ?w = Inl (ElementConstructionFailure, ?w')" by code_simp
  have l: "length (heap ?w) = 1" by code_simp
  from copy_failure_leaks_storage[OF i c]
  have "\<not> allocated ?w (Ptr (Some (length (heap ?w))) 0) \<and>
        allocated ?w' (Ptr (Some (length (heap ?w))) 0)" by blast
  then have "\<not> allocated ?w (Ptr (Some 1) 0) \<and> allocated ?w' (Ptr (Some 1) 0)"
    unfolding l .
  with i c show ?thesis by blast
qed

text \<open>
  C3.  The claim is that between two public operations the slots below the length hold live
  objects and the slots from the length on hold none, that no slot is assigned to after its
  destruction and that no element is destructed twice.  The code does otherwise: whenever
  \<open>erase(begin() + a, begin() + b)\<close> returns normally and the tail behind the range is not
  exactly as long as the range, the invariant does not hold afterwards.
\<close>

theorem erase_breaks_invariant:
  "invariant v w \<Longrightarrow> a \<le> b \<Longrightarrow> b \<le> size_v v \<Longrightarrow> size_v v - b \<noteq> b - a \<Longrightarrow>
   erase (ptr_add (begin_v v) a) (ptr_add (begin_v v) b) v w = Inr (it, v', w') \<Longrightarrow>
   \<not> invariant v' w'"
  using erase_invariant_only_if[of v a b w it v' w'] by (auto simp: size_v_def)

text \<open>
  At the container \<open>[1, 2, 3]\<close>: after \<open>erase(begin())\<close> the size is 2 and slot 1 holds no live
  object; the loop has assigned to slot 1 after destructing it, and the destructor of the
  container destructs slot 1 once more.
\<close>

theorem erase_breaks_invariant_witness:
  "invariant ex_v ex_w \<and> (0::nat) \<le> 1 \<and> 1 \<le> size_v ex_v \<and> size_v ex_v - 1 \<noteq> 1 - 0 \<and>
   erase (ptr_add (begin_v ex_v) 0) (ptr_add (begin_v ex_v) 1) ex_v ex_w =
     Inr (Ptr (Some 0) 0, \<lparr>data_m = Ptr (Some 0) 0, size_m = 2, capacity_m = 4\<rparr>,
          (world_of [Some [Slot True (Some 2), Slot False None, Slot False None,
                           Slot False None]])
            \<lparr>misuses := [AssignToNotLive (Ptr (Some 0) 1)]\<rparr>) \<and>
   \<not> invariant \<lparr>data_m = Ptr (Some 0) 0, size_m = 2, capacity_m = 4\<rparr>
          ((world_of [Some [Slot True (Some (2::nat)), Slot False None, Slot False None,
                           Slot False None]])
            \<lparr>misuses := [AssignToNotLive (Ptr (Some 0) 1)]\<rparr>) \<and>
   misuses (vector_dtor \<lparr>data_m = Ptr (Some 0) 0, size_m = 2, capacity_m = 4\<rparr>
          ((world_of [Some [Slot True (Some (2::nat)), Slot False None, Slot False None,
                           Slot False None]])
            \<lparr>misuses := [AssignToNotLive (Ptr (Some 0) 1)]\<rparr>)) =
     [AssignToNotLive (Ptr (Some 0) 1), DestroyNotLive (Ptr (Some 0) 1)]"
proof -
  let ?v = "\<lparr>data_m = Ptr (Some 0) 0, size_m = 2, capacity_m = 4\<rparr>"
  let ?w = "(world_of [Some [Slot True (Some (2::nat)), Slot False None, Slot False None,
                           Slot False None]])
            \<lparr>misuses := [AssignToNotLive (Ptr (Some 0) 1)]\<rparr>"
  have i: "invariant ex_v ex_w" by code_simp
  have ab: "(0::nat) \<le> 1" "1 \<le> size_v ex_v" "size_v ex_v - 1 \<noteq> 1 - 0" by code_simp+
  have e: "erase (ptr_add (begin_v ex_v) 0) (ptr_add (begin_v ex_v) 1) ex_v ex_w =
             Inr (Ptr (Some 0) 0, ?v, ?w)" by code_simp
  have m: "misuses (vector_dtor ?v ?w) =
             [AssignToNotLive (Ptr (Some 0) 1), DestroyNotLive (Ptr (Some 0) 1)]" by code_simp
  from erase_breaks_invariant[OF i ab e] i ab e m show ?thesis by blast
qed

text \<open>
  C4.  The claim is that \<open>erase(begin() + a, begin() + b)\<close> reduces the size by \<open>b - a\<close> and
  keeps the values and the order of the elements outside the range.  The code reduces the
  size by \<open>b - a\<close>, and of the elements it keeps only those below index \<open>b\<close> are the expected
  ones: from index \<open>b\<close> on the container holds destructed objects.  So the elements are the
  expected ones exactly when the tail behind the range is not longer than the range.
\<close>

theorem erase_destructs_kept_elements:
  "well_formed v w \<Longrightarrow> a \<le> b \<Longrightarrow> b \<le> size_v v \<Longrightarrow>
   erase (ptr_add (begin_v v) a) (ptr_add (begin_v v) b) v w = Inr (it, v', w') \<Longrightarrow>
   size_v v' = size_v v - (b - a) \<and>
   elems v' w' =
     take b (take a (elems v w) @ drop b (elems v w)) @ replicate (size_v v' - b) None \<and>
   (elems v' w' = take a (elems v w) @ drop b (elems v w) \<longleftrightarrow> size_v v - b \<le> b - a)"
proof -
  assume wf: "well_formed v w" and ab: "a \<le> b" "b \<le> size_v v"
    and e: "erase (ptr_add (begin_v v) a) (ptr_add (begin_v v) b) v w = Inr (it, v', w')"
  have ab': "b \<le> size_m v" using ab by (simp add: size_v_def)
  note er = erase_Inr(1,3)[OF e wf ab(1) ab']
  have sz: "size_v v' = size_v v - (b - a)" using er(1) by (simp add: size_v_def)
  have el: "elems v' w' =
     take b (take a (elems v w) @ drop b (elems v w)) @ replicate (size_v v' - b) None"
    using er(2) sz by (simp only: size_v_def)
  have iff: "elems v' w' = take a (elems v w) @ drop b (elems v w) \<longleftrightarrow> size_v v - b \<le> b - a"
    using erase_elems_iff[OF e wf ab(1) ab'] by (simp only: size_v_def)
  from sz el iff show ?thesis by blast
qed

text \<open>
  At the container \<open>[1, 2, 3]\<close>: after \<open>erase(begin(), begin() + 1)\<close> the size is 2, element 0
  is 2 and element 1, which should be 3, is a destructed object.
\<close>

theorem erase_destructs_kept_elements_witness:
  "well_formed ex_v ex_w \<and> (0::nat) \<le> 1 \<and> 1 \<le> size_v ex_v \<and>
   erase (ptr_add (begin_v ex_v) 0) (ptr_add (begin_v ex_v) 1) ex_v ex_w =
     Inr (Ptr (Some 0) 0, \<lparr>data_m = Ptr (Some 0) 0, size_m = 2, capacity_m = 4\<rparr>,
          (world_of [Some [Slot True (Some 2), Slot False None, Slot False None,
                           Slot False None]])
            \<lparr>misuses := [AssignToNotLive (Ptr (Some 0) 1)]\<rparr>) \<and>
   elems ex_v ex_w = [Some 1, Some 2, Some 3] \<and>
   elems \<lparr>data_m = Ptr (Some 0) 0, size_m = 2, capacity_m = 4\<rparr>
         ((world_of [Some [Slot True (Some (2::nat)), Slot False None, Slot False None,
                           Slot False None]])
            \<lparr>misuses := [AssignToNotLive (Ptr (Some 0) 1)]\<rparr>) = [Some 2, None] \<and>
   elems \<lparr>data_m = Ptr (Some 0) 0, size_m = 2, capacity_m = 4\<rparr>
         ((world_of [Some [Slot True (Some (2::nat)), Slot False None, Slot False None,
                           Slot False None]])
            \<lparr>misuses := [AssignToNotLive (Ptr (Some 0) 1)]\<rparr>) \<noteq>
     take 0 (elems ex_v ex_w) @ drop 1 (elems ex_v ex_w)"
proof -
  let ?v = "\<lparr>data_m = Ptr (Some 0) 0, size_m = 2, capacity_m = 4\<rparr>"
  let ?w = "(world_of [Some [Slot True (Some (2::nat)), Slot False None, Slot False None,
                           Slot False None]])
            \<lparr>misuses := [AssignToNotLive (Ptr (Some 0) 1)]\<rparr>"
  have i: "well_formed ex_v ex_w" by code_simp
  have ab: "(0::nat) \<le> 1" "1 \<le> size_v ex_v" by code_simp+
  have e: "erase (ptr_add (begin_v ex_v) 0) (ptr_add (begin_v ex_v) 1) ex_v ex_w =
             Inr (Ptr (Some 0) 0, ?v, ?w)" by code_simp
  have x: "elems ex_v ex_w = [Some 1, Some 2, Some 3]" by code_simp
  have y: "elems ?v ?w = [Some 2, None]" by code_simp
  have n: "\<not> size_v ex_v - 1 \<le> 1 - 0" by code_simp
  from erase_destructs_kept_elements[OF i ab e] n
  have "elems ?v ?w \<noteq> take 0 (elems ex_v ex_w) @ drop 1 (elems ex_v ex_w)" by blast
  with i ab e x y show ?thesis by blast
qed

text \<open>
  C5.  The claim is that \<open>insert(begin() + p, e)\<close> followed by \<open>erase\<close> of the returned
  position restores the elements.  The code restores the size, and the elements up to index
  \<open>p\<close>; behind index \<open>p\<close> the container holds destructed objects.  So the elements are
  restored exactly when at most one element followed the position.
\<close>

theorem insert_erase_destructs_tail:
  "well_formed v w \<Longrightarrow> p \<le> size_v v \<Longrightarrow>
   insert_v (ptr_add (begin_v v) p) e v w = Inr (it, v1, w1) \<Longrightarrow>
   erase_pos it v1 w1 = Inr (it2, v2, w2) \<Longrightarrow>
   size_v v2 = size_v v \<and>
   elems v2 w2 = take (Suc p) (elems v w) @ replicate (size_v v - Suc p) None \<and>
   (elems v2 w2 = elems v w \<longleftrightarrow> size_v v \<le> Suc p)"
proof -
  assume wf: "well_formed v w" and p: "p \<le> size_v v"
    and i: "insert_v (ptr_add (begin_v v) p) e v w = Inr (it, v1, w1)"
    and er: "erase_pos it v1 w1 = Inr (it2, v2, w2)"
  have p': "p \<le> size_m v" using p by (simp add: size_v_def)
  note r = insert_then_erase[OF i er wf p']
  define k where "k = size_m v - Suc p"
  have el: "elems v2 w2 = take (Suc p) (elems v w) @ replicate k None"
    using r(1) by (simp only: k_def)
  have "elems v2 w2 = elems v w \<longleftrightarrow> size_m v \<le> Suc p"
  proof
    assume "size_m v \<le> Suc p"
    then have "k = 0" "length (elems v w) \<le> Suc p" by (simp_all add: k_def)
    with el show "elems v2 w2 = elems v w" by simp
  next
    assume eq: "elems v2 w2 = elems v w"
    show "size_m v \<le> Suc p"
    proof (rule ccontr)
      assume "\<not> size_m v \<le> Suc p"
      then have "0 < k" by (simp add: k_def)
      then have "None \<in> set (take (Suc p) (elems v w) @ replicate k None)" by simp
      with el eq wf_elems_Some[OF wf] show False by simp
    qed
  qed
  with r show ?thesis by (simp add: size_v_def)
qed

text \<open>
  At the container \<open>[1, 2, 3]\<close>: \<open>insert(begin() + 1, 99)\<close> gives \<open>[1, 99, 2, 3]\<close>, and the
  following \<open>erase(begin() + 1)\<close> leaves the size 3, the elements 1 and 2, and a destructed
  object where 3 should be; the loop has assigned to slot 2 after destructing it.
\<close>

theorem insert_erase_destructs_tail_witness:
  "well_formed ex_v ex_w \<and> 1 \<le> size_v ex_v \<and>
   insert_v (ptr_add (begin_v ex_v) 1) 99 ex_v ex_w =
     Inr (Ptr (Some 0) 1, \<lparr>data_m = Ptr (Some 0) 0, size_m = 4, capacity_m = 4\<rparr>,
          world_of [Some [Slot True (Some 1), Slot True (Some 99), Slot True (Some 2),
                          Slot True (Some 3)]]) \<and>
   erase_pos (Ptr (Some 0) 1) \<lparr>data_m = Ptr (Some 0) 0, size_m = 4, capacity_m = 4\<rparr>
          (world_of [Some [Slot True (Some (1::nat)), Slot True (Some 99), Slot True (Some 2),
                          Slot True (Some 3)]]) =
     Inr (Ptr (Some 0) 1, \<lparr>data_m = Ptr (Some 0) 0, size_m = 3, capacity_m = 4\<rparr>,
          (world_of [Some [Slot True (Some 1), Slot True (Some 2), Slot False None,
                          Slot False None]])
            \<lparr>misuses := [AssignToNotLive (Ptr (Some 0) 2)]\<rparr>) \<and>
   elems ex_v ex_w = [Some 1, Some 2, Some 3] \<and>
   elems \<lparr>data_m = Ptr (Some 0) 0, size_m = 3, capacity_m = 4\<rparr>
          ((world_of [Some [Slot True (Some (1::nat)), Slot True (Some 2), Slot False None,
                          Slot False None]])
            \<lparr>misuses := [AssignToNotLive (Ptr (Some 0) 2)]\<rparr>) = [Some 1, Some 2, None] \<and>
   elems \<lparr>data_m = Ptr (Some 0) 0, size_m = 3, capacity_m = 4\<rparr>
          ((world_of [Some [Slot True (Some (1::nat)), Slot True (Some 2), Slot False None,
                          Slot False None]])
            \<lparr>misuses := [AssignToNotLive (Ptr (Some 0) 2)]\<rparr>) \<noteq> elems ex_v ex_w"
proof -
  let ?v1 = "\<lparr>data_m = Ptr (Some 0) 0, size_m = 4, capacity_m = 4\<rparr>"
  let ?w1 = "world_of [Some [Slot True (Some (1::nat)), Slot True (Some 99), Slot True (Some 2),
                          Slot True (Some 3)]]"
  let ?v2 = "\<lparr>data_m = Ptr (Some 0) 0, size_m = 3, capacity_m = 4\<rparr>"
  let ?w2 = "(world_of [Some [Slot True (Some (1::nat)), Slot True (Some 2), Slot False None,
                          Slot False None]])
            \<lparr>misuses := [AssignToNotLive (Ptr (Some 0) 2)]\<rparr>"
  have i: "well_formed ex_v ex_w" by code_simp
  have p: "1 \<le> size_v ex_v" by code_simp
  have ins: "insert_v (ptr_add (begin_v ex_v) 1) 99 ex_v ex_w = Inr (Ptr (Some 0) 1, ?v1, ?w1)"
    by code_simp
  have er: "erase_pos (Ptr (Some 0) 1) ?v1 ?w1 = Inr (Ptr (Some 0) 1, ?v2, ?w2)"
    by code_simp
  have x: "elems ex_v ex_w = [Some 1, Some 2, Some 3]" by code_simp
  have y: "elems ?v2 ?w2 = [Some 1, Some 2, None]" by code_simp
  have n: "\<not> size_v ex_v \<le> Suc 1" by code_simp
  from insert_erase_destructs_tail[OF i p ins er] n
  have "elems ?v2 ?w2 \<noteq> elems ex_v ex_w" by blast
  with i p ins er x y show ?thesis by blast
qed

text \<open>
  C6.  When \<open>n\<close> calls of \<open>push_back\<close>, starting from the empty container, all return
  normally, the size is \<open>n\<close> and the values read from the container are the pushed values in
  the order of insertion; and \<open>push_back(e)\<close> is \<open>insert(end(), e)\<close> without the iterator.
\<close>

theorem push_back_sequence:
  "(push_all xs vector_default w = Inr (v', w') \<longrightarrow>
      size_v v' = length xs \<and> elems v' w' = map Some xs) \<and>
   push_back e v w =
     (case insert_v (end_v v) e v w of Inl f \<Rightarrow> Inl f | Inr (it, v1, w1) \<Rightarrow> Inr (v1, w1))"
proof (intro conjI impI)
  assume "push_all xs vector_default w = Inr (v', w')"
  from push_all_Inr[OF this invariant_wf[OF invariant_default]]
  show "size_v v' = length xs" "elems v' w' = map Some xs"
    by (simp_all add: size_v_def elems_empty vector_default_def)
next
  show "push_back e v w =
     (case insert_v (end_v v) e v w of Inl f \<Rightarrow> Inl f | Inr (it, v1, w1) \<Rightarrow> Inr (v1, w1))"
    by (simp add: push_back_def)
qed

theorem push_back_sequence_witness:
  "push_all [1, 2, 3] vector_default world0 =
     Inr (\<lparr>data_m = Ptr (Some 2) 0, size_m = 3, capacity_m = 4\<rparr>,
          world_of [None, None, Some [Slot True (Some (1::nat)), Slot True (Some 2),
                                      Slot True (Some 3), Slot False None]]) \<and>
   size_v \<lparr>data_m = Ptr (Some 2) 0, size_m = 3, capacity_m = 4\<rparr> = length [1, 2, 3 :: nat] \<and>
   elems \<lparr>data_m = Ptr (Some 2) 0, size_m = 3, capacity_m = 4\<rparr>
          (world_of [None, None, Some [Slot True (Some (1::nat)), Slot True (Some 2),
                                      Slot True (Some 3), Slot False None]]) = map Some [1, 2, 3]"
proof -
  let ?v = "\<lparr>data_m = Ptr (Some 2) 0, size_m = 3, capacity_m = 4\<rparr>"
  let ?w = "world_of [None, None, Some [Slot True (Some (1::nat)), Slot True (Some 2),
                                      Slot True (Some 3), Slot False None]]"
  have r: "push_all [1, 2, 3] vector_default world0 = Inr (?v, ?w)" by code_simp
  from push_back_sequence[of "[1, 2, 3]" world0 ?v ?w] r show ?thesis by blast
qed




text \<open>
  C8.  Self-assignment of a well-formed container leaves its size and its elements
  unchanged, and the container is well-formed afterwards (\<open>length \<le> capacity\<close>, no
  allocation exactly when the capacity is zero), whether the assignment returns normally or
  throws; when it throws the members of the container are untouched.
\<close>

theorem self_assignment:
  "well_formed v w \<Longrightarrow>
   (case assign_v v v w of
      Inl (e, v', w') \<Rightarrow> v' = v \<and> well_formed v' w' \<and> elems v' w' = elems v w
    | Inr (v', w') \<Rightarrow> size_v v' = size_v v \<and> well_formed v' w' \<and> elems v' w' = elems v w)"
proof (cases "assign_v v v w")
  case (Inl x)
  assume wf: "well_formed v w"
  obtain e v' w' where x: "x = (e, v', w')" by (cases x) auto
  from assign_v_self_Inl[OF Inl[unfolded x] wf] Inl x show ?thesis by simp
next
  case (Inr y)
  assume wf: "well_formed v w"
  obtain v' w' where y: "y = (v', w')" by (cases y) auto
  note r = assign_v_self_Inr[OF Inr[unfolded y] wf]
  from r invariant_wf[OF r(1)] Inr y show ?thesis by (simp add: size_v_def)
qed

theorem self_assignment_witness:
  "well_formed ex_v ex_w \<and>
   assign_v ex_v ex_v ex_w =
     Inr (\<lparr>data_m = Ptr (Some 1) 0, size_m = 3, capacity_m = 3\<rparr>,
          world_of [None, Some [Slot True (Some 1), Slot True (Some 2), Slot True (Some 3)]]) \<and>
   size_v \<lparr>data_m = Ptr (Some 1) 0, size_m = 3, capacity_m = 3\<rparr> = size_v ex_v \<and>
   well_formed \<lparr>data_m = Ptr (Some 1) 0, size_m = 3, capacity_m = 3\<rparr>
          (world_of [None, Some [Slot True (Some (1::nat)), Slot True (Some 2),
                                 Slot True (Some 3)]]) \<and>
   elems \<lparr>data_m = Ptr (Some 1) 0, size_m = 3, capacity_m = 3\<rparr>
          (world_of [None, Some [Slot True (Some (1::nat)), Slot True (Some 2),
                                 Slot True (Some 3)]]) = elems ex_v ex_w"
proof -
  let ?v = "\<lparr>data_m = Ptr (Some 1) 0, size_m = 3, capacity_m = 3\<rparr>"
  let ?w = "world_of [None, Some [Slot True (Some (1::nat)), Slot True (Some 2), Slot True (Some 3)]]"
  have i: "well_formed ex_v ex_w" by code_simp
  have a: "assign_v ex_v ex_v ex_w = Inr (?v, ?w)" by code_simp
  from self_assignment[OF i] a
  have "size_v ?v = size_v ex_v \<and> well_formed ?v ?w \<and> elems ?v ?w = elems ex_v ex_w" by simp
  with i a show ?thesis by blast
qed

text \<open>
  C9.  The claim is that \<open>erase(p, p)\<close> leaves the container unchanged, every element still
  a live object.  The code does otherwise: for \<open>p\<close> before the end, the members are
  unchanged, and every element from \<open>p\<close> on is destructed.
\<close>

theorem erase_empty_range_destructs:
  "invariant v w \<Longrightarrow> p < size_v v \<Longrightarrow>
   erase (ptr_add (begin_v v) p) (ptr_add (begin_v v) p) v w = Inr (it, v', w') \<Longrightarrow>
   v' = v \<and> elems v' w' = take p (elems v w) @ replicate (size_v v - p) None \<and>
   map live (take (size_v v) (slots_of w' (data_v v))) =
     replicate p True @ replicate (size_v v - p) False"
proof -
  assume inv: "invariant v w" and p: "p < size_v v"
    and e: "erase (ptr_add (begin_v v) p) (ptr_add (begin_v v) p) v w = Inr (it, v', w')"
  let ?n = "size_m v"
  have pn: "p \<le> ?n" "p < ?n" using p by (simp_all add: size_v_def)
  note er = erase_Inr[OF e invariant_wf[OF inv] le_refl pn(1)]
  have v': "v' = v" using er(1) by simp
  have "take p (take p (elems v w) @ drop p (elems v w)) = take p (elems v w)" by simp
  then have el: "elems v' w' = take p (elems v w) @ replicate (?n - p) None"
    using er(3) by simp
  have "region (data_m v) \<noteq> None"
  proof
    assume "region (data_m v) = None"
    from invariant_null[OF inv this] pn show False by simp
  qed
  then obtain r where Some: "region (data_m v) = Some r" by auto
  from invariant_reg[OF inv Some] obtain ss where
    d: "data_m v = Ptr (Some r) 0" and r: "reg w r ss" and sz: "?n \<le> length ss"
    and lv: "\<forall>j<?n. live (ss ! j) \<and> bytes (ss ! j) \<noteq> None"
    by blast
  define ss' where "ss' = tab (length ss)
        (\<lambda>j. if p \<le> j \<and> j < ?n then Slot False None
              else if p \<le> j \<and> j < p + ?n - p \<and> live (ss ! j)
                   then Slot True (obj (ss ! (j + (p - p))))
                   else ss ! j)"
  have r': "reg w' r ss'" using erase_Inr_reg[OF e d r sz le_refl] by (simp add: ss'_def)
  have s': "slots_of w' (data_v v) = ss'"
    using slots_of_reg[OF r'] d by (simp add: data_v_def)
  have "map live (take ?n ss') = replicate p True @ replicate (?n - p) False"
  proof (rule nth_equalityI)
    show "length (map live (take ?n ss')) = length (replicate p True @ replicate (?n - p) False)"
      using sz pn by (simp add: ss'_def)
  next
    fix j assume "j < length (map live (take ?n ss'))"
    then have j: "j < ?n" using sz by (simp add: ss'_def)
    then have jl: "j < length ss" using sz by simp
    show "map live (take ?n ss') ! j = (replicate p True @ replicate (?n - p) False) ! j"
    proof (cases "j < p")
      case True
      with j jl lv sz show ?thesis by (simp add: nth_append ss'_def)
    next
      case False
      with j jl sz show ?thesis by (simp add: nth_append ss'_def)
    qed
  qed
  with v' el s' show ?thesis by (simp add: size_v_def)
qed

text \<open>
  At the container \<open>[1, 2, 3]\<close>: after \<open>erase(begin() + 1, begin() + 1)\<close> the size is still 3
  and the elements at the indices 1 and 2 are destructed objects.
\<close>

theorem erase_empty_range_destructs_witness:
  "invariant ex_v ex_w \<and> 1 < size_v ex_v \<and>
   erase (ptr_add (begin_v ex_v) 1) (ptr_add (begin_v ex_v) 1) ex_v ex_w =
     Inr (Ptr (Some 0) 1, ex_v,
          world_of [Some [Slot True (Some 1), Slot False None, Slot False None,
                          Slot False None]]) \<and>
   map live (take (size_v ex_v) (slots_of ex_w (data_v ex_v))) = [True, True, True] \<and>
   map live (take (size_v ex_v) (slots_of
       (world_of [Some [Slot True (Some (1::nat)), Slot False None, Slot False None,
                        Slot False None]]) (data_v ex_v))) = [True, False, False] \<and>
   elems ex_v (world_of [Some [Slot True (Some (1::nat)), Slot False None, Slot False None,
                        Slot False None]]) = [Some 1, None, None]"
proof -
  let ?w = "world_of [Some [Slot True (Some (1::nat)), Slot False None, Slot False None,
                        Slot False None]]"
  have i: "invariant ex_v ex_w" by code_simp
  have p: "1 < size_v ex_v" by code_simp
  have e: "erase (ptr_add (begin_v ex_v) 1) (ptr_add (begin_v ex_v) 1) ex_v ex_w =
             Inr (Ptr (Some 0) 1, ex_v, ?w)" by code_simp
  have b: "map live (take (size_v ex_v) (slots_of ex_w (data_v ex_v))) = [True, True, True]"
    by code_simp
  have y: "elems ex_v ?w = [Some 1, None, None]" by code_simp
  have s: "size_v ex_v = 3" by code_simp
  from erase_empty_range_destructs[OF i p e]
  have "map live (take (size_v ex_v) (slots_of ?w (data_v ex_v))) =
          replicate 1 True @ replicate (size_v ex_v - 1) False" by blast
  also have "\<dots> = [True, False, False]" unfolding s by (simp add: numeral_2_eq_2)
  finally show ?thesis using i p e b y by blast
qed



end
